theory Spec2Isabelle
  imports Complex_Main "HOL-Library.Multiset" "HOL-Library.Log_Nat"
begin

section \<open>Numbers\<close>

text \<open>
  The program (src/App.jsx) computes with JavaScript numbers, which are IEEE 754 binary64
  values. Two models of them are used here.

  In the first one a number is an exact rational, and the one non-number that the balance
  code can produce, \<open>NaN\<close> (from \<open>undefined + x\<close> when a key is missing from the balance
  object), is \<open>None\<close>. It describes what the code does when no operation rounds or overflows,
  and the claims about which expense is skipped, which entries are listed, how many
  transactions are pushed and who pays whom are stated over it.

  In the second one (section \<open>Binary floating point\<close>) a number is a double: every
  arithmetic operation rounds its exact result to the nearest double, a tie going to the even
  significand, and overflows to an infinity. The claims whose truth depends on rounding or
  overflow (the sum of the balances, the change made by one expense, the total paid, the
  balances after paying, and the termination of the loop) are stated over that one. The
  names of the second model carry the suffix \<open>_fp\<close>.
\<close>

type_synonym jsnum = "rat option"

definition js_add :: "jsnum \<Rightarrow> jsnum \<Rightarrow> jsnum" where
  "js_add a b = (case a of None \<Rightarrow> None | Some x \<Rightarrow> (case b of None \<Rightarrow> None | Some y \<Rightarrow> Some (x + y)))"

definition js_sub :: "jsnum \<Rightarrow> jsnum \<Rightarrow> jsnum" where
  "js_sub a b = (case a of None \<Rightarrow> None | Some x \<Rightarrow> (case b of None \<Rightarrow> None | Some y \<Rightarrow> Some (x - y)))"

text \<open>\<open>Math.round(x)\<close> is the integer nearest to \<open>x\<close>, a tie going up.\<close>

definition math_round :: "rat \<Rightarrow> int" where
  "math_round x = \<lfloor>x + 1 / 2\<rfloor>"

text \<open>
  \<open>x.toFixed(2)\<close> is the decimal string with two fraction digits nearest to \<open>x\<close>, a tie
  going away from zero. The string is represented by the number it denotes.
\<close>

definition toFixed2 :: "rat \<Rightarrow> rat" where
  "toFixed2 x = (if x < 0 then - (of_int \<lfloor>- x * 100 + 1 / 2\<rfloor> / 100)
                 else of_int \<lfloor>x * 100 + 1 / 2\<rfloor> / 100)"

section \<open>Data\<close>

text \<open>
  An expense document as the balance code reads it: \<open>exp.amount\<close>, \<open>exp.payer\<close> and
  \<open>exp.involved\<close>, the last one possibly missing (\<open>!exp.involved\<close>).
\<close>

record expense =
  amount :: rat
  payer :: string
  involved :: "string list option"

text \<open>
  The object \<open>bal\<close>: string keys in insertion order, each key once. Reading a missing key
  gives \<open>undefined\<close>, which arithmetic turns into \<open>NaN\<close>; writing a missing key appends it.
\<close>

type_synonym balance_map = "(string \<times> jsnum) list"

definition obj_get :: "balance_map \<Rightarrow> string \<Rightarrow> jsnum" where
  "obj_get bal k = (case map_of bal k of None \<Rightarrow> None | Some v \<Rightarrow> v)"

fun obj_set :: "balance_map \<Rightarrow> string \<Rightarrow> jsnum \<Rightarrow> balance_map" where
  "obj_set [] k v = [(k, v)]"
| "obj_set ((k', v') # bal) k v =
     (if k' = k then (k', v) # bal else (k', v') # obj_set bal k v)"

text \<open>\<open>Object.keys(bal)\<close>\<close>

definition obj_keys :: "balance_map \<Rightarrow> string list" where
  "obj_keys bal = map fst bal"

section \<open>Balances\<close>

text \<open>\<open>participants.forEach(p => bal[p] = 0)\<close>\<close>

definition init_balances :: "string list \<Rightarrow> balance_map" where
  "init_balances participants = foldl (\<lambda>bal p. obj_set bal p (Some 0)) [] participants"

text \<open>\<open>exp.involved.forEach(person => { bal[person] -= share })\<close>\<close>

definition debit_all :: "rat \<Rightarrow> balance_map \<Rightarrow> string list \<Rightarrow> balance_map" where
  "debit_all share bal members =
     foldl (\<lambda>b person. obj_set b person (js_sub (obj_get b person) (Some share))) bal members"

text \<open>
  The body of \<open>expenses.forEach\<close>: an expense without involved members is skipped;
  otherwise the payer is credited with the amount (\<open>parseFloat\<close> of a number is that
  number) and every involved member is debited with the share.
\<close>

definition add_expense :: "balance_map \<Rightarrow> expense \<Rightarrow> balance_map" where
  "add_expense bal e =
     (case involved e of
        None \<Rightarrow> bal
      | Some members \<Rightarrow>
          if length members = 0 then bal
          else
            let share = amount e / of_nat (length members);
                bal1 = obj_set bal (payer e) (js_add (obj_get bal (payer e)) (Some (amount e)))
            in debit_all share bal1 members)"

definition balances :: "string list \<Rightarrow> expense list \<Rightarrow> balance_map" where
  "balances participants expenses = foldl add_expense (init_balances participants) expenses"

text \<open>The sum of the values of a balance object, \<open>NaN\<close> if one of them is.\<close>

definition sum_values :: "balance_map \<Rightarrow> jsnum" where
  "sum_values bal = foldl js_add (Some 0) (map snd bal)"

section \<open>Settlement\<close>

text \<open>
  The objects pushed on \<open>debtors\<close> and \<open>creditors\<close> (\<open>{ person, amount: val }\<close>) and the
  objects pushed on \<open>transactions\<close> (\<open>{ from, to, amount }\<close>). The field names carry a prefix
  where the source's name is taken already.
\<close>

record entry =
  person :: string
  entry_amount :: rat

record transaction =
  tx_from :: string
  tx_to :: string
  tx_amount :: rat

text \<open>\<open>const val = Math.round(amount * 100) / 100\<close>\<close>

definition round2 :: "rat \<Rightarrow> rat" where
  "round2 a = of_int (math_round (a * 100)) / 100"

text \<open>
  Step 1, \<open>Object.entries(balances).forEach\<close>: a balance whose rounded value is below
  \<open>-0.01\<close> goes to the debtors, one above \<open>0.01\<close> to the creditors. Both comparisons are
  false on \<open>NaN\<close>.
\<close>

fun debtors_of :: "balance_map \<Rightarrow> entry list" where
  "debtors_of [] = []"
| "debtors_of ((p, None) # bal) = debtors_of bal"
| "debtors_of ((p, Some a) # bal) =
     (if round2 a < - (1 / 100) then \<lparr>person = p, entry_amount = round2 a\<rparr> # debtors_of bal
      else debtors_of bal)"

fun creditors_of :: "balance_map \<Rightarrow> entry list" where
  "creditors_of [] = []"
| "creditors_of ((p, None) # bal) = creditors_of bal"
| "creditors_of ((p, Some a) # bal) =
     (if round2 a > 1 / 100 then \<lparr>person = p, entry_amount = round2 a\<rparr> # creditors_of bal
      else creditors_of bal)"

text \<open>
  Step 2: \<open>debtors.sort((a, b) => a.amount - b.amount)\<close> and
  \<open>creditors.sort((a, b) => b.amount - a.amount)\<close>; the sort is stable.
\<close>

definition sort_debtors :: "entry list \<Rightarrow> entry list" where
  "sort_debtors ds = sort_key entry_amount ds"

definition sort_creditors :: "entry list \<Rightarrow> entry list" where
  "sort_creditors cs = sort_key (\<lambda>c. - entry_amount c) cs"

text \<open>
  Step 3, the \<open>while\<close> loop. Its state is the two cursors, the two arrays (whose objects
  the body updates in place) and the transactions pushed so far. The body runs only under the
  loop condition, so both array reads are in range.
\<close>

type_synonym loop_state = "nat \<times> nat \<times> entry list \<times> entry list \<times> transaction list"

definition loop_cond :: "loop_state \<Rightarrow> bool" where
  "loop_cond s = (case s of (i, j, debtors, creditors, transactions) \<Rightarrow>
     i < length debtors \<and> j < length creditors)"

definition loop_body :: "loop_state \<Rightarrow> loop_state" where
  "loop_body s = (case s of (i, j, debtors, creditors, transactions) \<Rightarrow>
     let debtor = debtors ! i;
         creditor = creditors ! j;
         amountToSettle = min \<bar>entry_amount debtor\<bar> (entry_amount creditor);
         transactions' = transactions @
           [\<lparr>tx_from = person debtor, tx_to = person creditor,
             tx_amount = toFixed2 amountToSettle\<rparr>];
         debtor' = debtor\<lparr>entry_amount := entry_amount debtor + amountToSettle\<rparr>;
         creditor' = creditor\<lparr>entry_amount := entry_amount creditor - amountToSettle\<rparr>;
         i' = (if \<bar>entry_amount debtor'\<bar> < 1 / 100 then i + 1 else i);
         j' = (if entry_amount creditor' < 1 / 100 then j + 1 else j)
     in (i', j', debtors[i := debtor'], creditors[j := creditor'], transactions'))"

text \<open>The loop returns the state it stops in; a loop that does not stop has the value \<open>None\<close>.\<close>

partial_function (option) greedy_loop :: "loop_state \<Rightarrow> loop_state option" where
  "greedy_loop s = (if loop_cond s then greedy_loop (loop_body s) else Some s)"

declare greedy_loop.simps [code]

text \<open>
  The state the loop starts in: both cursors at 0, the two sorted arrays, no transaction.
\<close>

definition initial_state :: "balance_map \<Rightarrow> loop_state" where
  "initial_state bal = (0, 0, sort_debtors (debtors_of bal), sort_creditors (creditors_of bal), [])"

text \<open>
  \<open>calculateSettlements\<close>, on the entries of the balance object: the transactions of the
  state the loop stops in.
\<close>

definition calculateSettlements :: "balance_map \<Rightarrow> transaction list option" where
  "calculateSettlements bal =
     map_option (\<lambda>(i, j, debtors, creditors, transactions). transactions)
       (greedy_loop (initial_state bal))"

section \<open>Notions used in the statements\<close>

text \<open>An expense whose payer and involved members are all drawn from the roster.\<close>

definition from_roster :: "string list \<Rightarrow> expense \<Rightarrow> bool" where
  "from_roster participants e =
     (payer e \<in> set participants \<and>
      (case involved e of None \<Rightarrow> True | Some members \<Rightarrow> set members \<subseteq> set participants))"

text \<open>
  Paying a transaction: the payer's balance (negative, money owed) rises by the amount and
  the receiver's balance (positive, money due) falls by it. \<open>settle_up\<close> pays a list of
  transactions in order.
\<close>

definition pay :: "balance_map \<Rightarrow> transaction \<Rightarrow> balance_map" where
  "pay bal t =
     (let bal1 = obj_set bal (tx_from t) (js_add (obj_get bal (tx_from t)) (Some (tx_amount t)))
      in obj_set bal1 (tx_to t) (js_sub (obj_get bal1 (tx_to t)) (Some (tx_amount t))))"

definition settle_up :: "balance_map \<Rightarrow> transaction list \<Rightarrow> balance_map" where
  "settle_up bal ts = foldl pay bal ts"

text \<open>Every value of the object is a number of magnitude at most \<open>tol\<close>.\<close>

definition all_within :: "rat \<Rightarrow> balance_map \<Rightarrow> bool" where
  "all_within tol bal =
     list_all (\<lambda>kv. case snd kv of None \<Rightarrow> False | Some b \<Rightarrow> \<bar>b\<bar> \<le> tol) bal"

text \<open>Every value of the object is a number.\<close>

definition all_numbers :: "balance_map \<Rightarrow> bool" where
  "all_numbers bal = list_all (\<lambda>kv. snd kv \<noteq> None) bal"

text \<open>The total credit of a balance object: the sum of \<open>max(b, 0)\<close> over its numbers.\<close>

definition total_credit :: "balance_map \<Rightarrow> rat" where
  "total_credit bal = sum_list (map (\<lambda>kv. case snd kv of None \<Rightarrow> 0 | Some b \<Rightarrow> max b 0) bal)"

text \<open>The totals of the two lists of step 1: the rounded debt and the rounded credit.\<close>

definition rounded_debt :: "balance_map \<Rightarrow> rat" where
  "rounded_debt bal = sum_list (map (\<lambda>d. \<bar>entry_amount d\<bar>) (debtors_of bal))"

definition rounded_credit :: "balance_map \<Rightarrow> rat" where
  "rounded_credit bal = sum_list (map entry_amount (creditors_of bal))"

definition total_amount :: "transaction list \<Rightarrow> rat" where
  "total_amount ts = sum_list (map tx_amount ts)"

section \<open>Notions used in the proofs\<close>

text \<open>A whole number of hundredths.\<close>

definition is_cents :: "rat \<Rightarrow> bool" where
  "is_cents x = (of_int \<lfloor>x * 100\<rfloor> = x * 100)"

text \<open>What a list of transactions adds to the balance of \<open>p\<close> when it is paid.\<close>

definition net :: "transaction list \<Rightarrow> string \<Rightarrow> rat" where
  "net ts p = sum_list (map (\<lambda>t. (if tx_from t = p then tx_amount t else 0)
                                  - (if tx_to t = p then tx_amount t else 0)) ts)"

text \<open>
  The invariant of the loop that its termination rests on: the cursors are in range, all
  amounts are whole hundredths, an entry behind its cursor is settled (amount 0), a debtor
  at or after the cursor owes at least 0.01 and a creditor there is owed at least 0.01.
\<close>

definition debtor_ok :: "nat \<Rightarrow> nat \<Rightarrow> rat \<Rightarrow> bool" where
  "debtor_ok i k x = (is_cents x \<and> (if k < i then x = 0 else x \<le> - (1 / 100)))"

definition creditor_ok :: "nat \<Rightarrow> nat \<Rightarrow> rat \<Rightarrow> bool" where
  "creditor_ok j k x = (is_cents x \<and> (if k < j then x = 0 else 1 / 100 \<le> x))"

definition base_inv :: "loop_state \<Rightarrow> bool" where
  "base_inv s = (case s of (i, j, ds, cs, ts) \<Rightarrow>
     i \<le> length ds \<and> j \<le> length cs \<and>
     (\<forall>k<length ds. debtor_ok i k (entry_amount (ds ! k))) \<and>
     (\<forall>k<length cs. creditor_ok j k (entry_amount (cs ! k))))"

definition remaining :: "loop_state \<Rightarrow> nat" where
  "remaining s = (case s of (i, j, ds, cs, ts) \<Rightarrow> (length ds - i) + (length cs - j))"

text \<open>Shorthands for the array update and the transaction of one step of the loop.\<close>

definition set_amount :: "entry list \<Rightarrow> nat \<Rightarrow> rat \<Rightarrow> entry list" where
  "set_amount xs k v = xs[k := (xs ! k)\<lparr>entry_amount := v\<rparr>]"

definition mk_tx :: "entry list \<Rightarrow> entry list \<Rightarrow> nat \<Rightarrow> nat \<Rightarrow> rat \<Rightarrow> transaction" where
  "mk_tx ds cs i j a = \<lparr>tx_from = person (ds ! i), tx_to = person (cs ! j), tx_amount = a\<rparr>"



definition sum_inv :: "rat \<Rightarrow> rat \<Rightarrow> loop_state \<Rightarrow> bool" where
  "sum_inv D C s = (case s of (i, j, ds, cs, ts) \<Rightarrow>
     sum_list (map entry_amount ds) = total_amount ts - D \<and>
     sum_list (map entry_amount cs) = C - total_amount ts)"

definition acct_inv :: "entry list \<Rightarrow> entry list \<Rightarrow> loop_state \<Rightarrow> bool" where
  "acct_inv ds0 cs0 s = (case s of (i, j, ds, cs, ts) \<Rightarrow>
     map person ds = map person ds0 \<and> map person cs = map person cs0 \<and>
     (\<forall>t \<in> set ts. tx_from t \<in> set (map person ds0) \<and> tx_to t \<in> set (map person cs0)) \<and>
     (\<forall>k<length ds0. entry_amount (ds ! k) = entry_amount (ds0 ! k) + net ts (person (ds0 ! k))) \<and>
     (\<forall>k<length cs0. entry_amount (cs ! k) = entry_amount (cs0 ! k) + net ts (person (cs0 ! k))))"

section \<open>Binary floating point\<close>

text \<open>
  A JavaScript number: a finite double, given by the rational it denotes, one of the two
  infinities, or \<open>NaN\<close>. The sign of a zero is not represented: the code never divides by a
  zero and never prints one, and no comparison tells the two zeros apart.
\<close>

datatype double = Finite rat | PosInf | NegInf | NaN

text \<open>
  Rounding to the nearest double. \<open>pow2 k\<close> is \<open>2^k\<close>, \<open>ilog2 q\<close> the exponent of the
  binade of a positive \<open>q\<close> (\<open>2^(ilog2 q) \<le> q < 2^(ilog2 q + 1)\<close>), and \<open>ulp_exp q\<close> the exponent of
  the spacing of the doubles around \<open>q\<close>: 52 below that of the binade, and never below
  \<open>-1074\<close>, the spacing of the subnormal numbers. \<open>to_double q\<close> is the multiple of the
  spacing nearest to \<open>q\<close>, a tie going to the even multiple, and an infinity when that
  multiple reaches \<open>2^1024\<close>.
\<close>

definition pow2 :: "int \<Rightarrow> rat" where
  "pow2 k = (if 0 \<le> k then 2 ^ nat k else 1 / 2 ^ nat (- k))"

definition ilog2 :: "rat \<Rightarrow> int" where
  "ilog2 q = (case quotient_of q of (a, b) \<Rightarrow>
     let k = bitlen a - bitlen b in if pow2 k \<le> q then k else k - 1)"

definition round_even :: "rat \<Rightarrow> int" where
  "round_even x = (let n = \<lfloor>x\<rfloor>; r = x - of_int n
     in if r < 1 / 2 then n else if 1 / 2 < r then n + 1 else if even n then n else n + 1)"

definition ulp_exp :: "rat \<Rightarrow> int" where
  "ulp_exp q = max (ilog2 \<bar>q\<bar> - 52) (- 1074)"

definition to_double :: "rat \<Rightarrow> double" where
  "to_double q =
     (if q = 0 then Finite 0
      else let e = ulp_exp q; m = round_even (q / pow2 e)
           in if 971 < e \<or> (e = 971 \<and> 9007199254740992 \<le> \<bar>m\<bar>)
              then (if 0 < q then PosInf else NegInf)
              else Finite (of_int m * pow2 e))"

text \<open>
  The operators \<open>-x\<close>, \<open>x + y\<close>, \<open>x - y\<close>, \<open>x * y\<close>, \<open>x / y\<close>, \<open>Math.abs\<close>, \<open>x < y\<close> and
  \<open>Math.min\<close> on doubles: the exact result, rounded. Every comparison with \<open>NaN\<close> is false.
\<close>

fun d_neg :: "double \<Rightarrow> double" where
  "d_neg (Finite x) = Finite (- x)"
| "d_neg PosInf = NegInf"
| "d_neg NegInf = PosInf"
| "d_neg NaN = NaN"

fun d_add :: "double \<Rightarrow> double \<Rightarrow> double" where
  "d_add (Finite x) (Finite y) = to_double (x + y)"
| "d_add NaN b = NaN"
| "d_add a NaN = NaN"
| "d_add PosInf NegInf = NaN"
| "d_add NegInf PosInf = NaN"
| "d_add PosInf b = PosInf"
| "d_add a PosInf = PosInf"
| "d_add NegInf b = NegInf"
| "d_add a NegInf = NegInf"

definition d_sub :: "double \<Rightarrow> double \<Rightarrow> double" where
  "d_sub a b = d_add a (d_neg b)"

fun d_mul :: "double \<Rightarrow> double \<Rightarrow> double" where
  "d_mul (Finite x) (Finite y) = to_double (x * y)"
| "d_mul NaN b = NaN"
| "d_mul a NaN = NaN"
| "d_mul (Finite x) PosInf = (if x = 0 then NaN else if 0 < x then PosInf else NegInf)"
| "d_mul (Finite x) NegInf = (if x = 0 then NaN else if 0 < x then NegInf else PosInf)"
| "d_mul PosInf (Finite y) = (if y = 0 then NaN else if 0 < y then PosInf else NegInf)"
| "d_mul NegInf (Finite y) = (if y = 0 then NaN else if 0 < y then NegInf else PosInf)"
| "d_mul PosInf PosInf = PosInf"
| "d_mul NegInf NegInf = PosInf"
| "d_mul PosInf NegInf = NegInf"
| "d_mul NegInf PosInf = NegInf"

fun d_div :: "double \<Rightarrow> double \<Rightarrow> double" where
  "d_div (Finite x) (Finite y) =
     (if y = 0 then (if x = 0 then NaN else if 0 < x then PosInf else NegInf)
      else to_double (x / y))"
| "d_div NaN b = NaN"
| "d_div a NaN = NaN"
| "d_div (Finite x) b = Finite 0"
| "d_div PosInf (Finite y) = (if 0 \<le> y then PosInf else NegInf)"
| "d_div NegInf (Finite y) = (if 0 \<le> y then NegInf else PosInf)"
| "d_div a b = NaN"

fun d_abs :: "double \<Rightarrow> double" where
  "d_abs (Finite x) = Finite \<bar>x\<bar>"
| "d_abs PosInf = PosInf"
| "d_abs NegInf = PosInf"
| "d_abs NaN = NaN"

fun d_less :: "double \<Rightarrow> double \<Rightarrow> bool" where
  "d_less (Finite x) (Finite y) = (x < y)"
| "d_less NaN b = False"
| "d_less a NaN = False"
| "d_less a NegInf = False"
| "d_less PosInf b = False"
| "d_less a b = True"

definition d_min :: "double \<Rightarrow> double \<Rightarrow> double" where
  "d_min a b = (if a = NaN \<or> b = NaN then NaN else if d_less b a then b else a)"

text \<open>
  \<open>Math.round\<close> and \<open>toFixed(2)\<close> work on the exact value of the double. The result of
  \<open>Math.round\<close> is a double again (a double of magnitude \<open>2^52\<close> or more is an integer
  already). The string made by \<open>toFixed(2)\<close> is represented by the number it denotes; from
  \<open>10^21\<close> on, and for the non-finite values, \<open>toFixed\<close> prints the number itself.
\<close>

fun d_round :: "double \<Rightarrow> double" where
  "d_round (Finite x) = Finite (of_int (math_round x))"
| "d_round a = a"

fun d_toFixed2 :: "double \<Rightarrow> double" where
  "d_toFixed2 (Finite x) =
     (if \<bar>x\<bar> < 1000000000000000000000 then Finite (toFixed2 x) else Finite x)"
| "d_toFixed2 a = a"

text \<open>The literals \<open>0.01\<close> and \<open>100\<close> of the source, as doubles.\<close>

definition cent :: double where
  "cent = to_double (1 / 100)"

definition hundred :: double where
  "hundred = Finite 100"

text \<open>The expense documents and the balance object, as in section \<open>Data\<close>.\<close>

record expense_fp =
  amount_fp :: double
  payer_fp :: string
  involved_fp :: "string list option"

type_synonym balance_map_fp = "(string \<times> double) list"

definition obj_get_fp :: "balance_map_fp \<Rightarrow> string \<Rightarrow> double" where
  "obj_get_fp bal k = (case map_of bal k of None \<Rightarrow> NaN | Some v \<Rightarrow> v)"

fun obj_set_fp :: "balance_map_fp \<Rightarrow> string \<Rightarrow> double \<Rightarrow> balance_map_fp" where
  "obj_set_fp [] k v = [(k, v)]"
| "obj_set_fp ((k', v') # bal) k v =
     (if k' = k then (k', v) # bal else (k', v') # obj_set_fp bal k v)"

text \<open>
  The balance computation, as in section \<open>Balances\<close>: \<open>bal[p] = 0\<close>;
  \<open>share = exp.amount / exp.involved.length\<close>; \<open>bal[exp.payer] += parseFloat(exp.amount)\<close>;
  \<open>bal[person] -= share\<close>.
\<close>

definition init_balances_fp :: "string list \<Rightarrow> balance_map_fp" where
  "init_balances_fp participants = foldl (\<lambda>bal p. obj_set_fp bal p (Finite 0)) [] participants"

definition debit_all_fp :: "double \<Rightarrow> balance_map_fp \<Rightarrow> string list \<Rightarrow> balance_map_fp" where
  "debit_all_fp share bal members =
     foldl (\<lambda>b person. obj_set_fp b person (d_sub (obj_get_fp b person) share)) bal members"

definition add_expense_fp :: "balance_map_fp \<Rightarrow> expense_fp \<Rightarrow> balance_map_fp" where
  "add_expense_fp bal e =
     (case involved_fp e of
        None \<Rightarrow> bal
      | Some members \<Rightarrow>
          if length members = 0 then bal
          else
            let share = d_div (amount_fp e) (Finite (of_nat (length members)));
                bal1 = obj_set_fp bal (payer_fp e) (d_add (obj_get_fp bal (payer_fp e)) (amount_fp e))
            in debit_all_fp share bal1 members)"

definition balances_fp :: "string list \<Rightarrow> expense_fp list \<Rightarrow> balance_map_fp" where
  "balances_fp participants expenses =
     foldl add_expense_fp (init_balances_fp participants) expenses"

text \<open>The settlement, as in section \<open>Settlement\<close>.\<close>

record entry_fp =
  person_fp :: string
  entry_amount_fp :: double

record transaction_fp =
  tx_from_fp :: string
  tx_to_fp :: string
  tx_amount_fp :: double

text \<open>\<open>const val = Math.round(amount * 100) / 100\<close>\<close>

definition round2_fp :: "double \<Rightarrow> double" where
  "round2_fp a = d_div (d_round (d_mul a hundred)) hundred"

text \<open>\<open>if (val < -0.01) debtors.push(...)\<close> and \<open>if (val > 0.01) creditors.push(...)\<close>\<close>

fun debtors_of_fp :: "balance_map_fp \<Rightarrow> entry_fp list" where
  "debtors_of_fp [] = []"
| "debtors_of_fp ((p, a) # bal) =
     (if d_less (round2_fp a) (d_neg cent)
      then \<lparr>person_fp = p, entry_amount_fp = round2_fp a\<rparr> # debtors_of_fp bal
      else debtors_of_fp bal)"

fun creditors_of_fp :: "balance_map_fp \<Rightarrow> entry_fp list" where
  "creditors_of_fp [] = []"
| "creditors_of_fp ((p, a) # bal) =
     (if d_less cent (round2_fp a)
      then \<lparr>person_fp = p, entry_amount_fp = round2_fp a\<rparr> # creditors_of_fp bal
      else creditors_of_fp bal)"

text \<open>
  \<open>Array.prototype.sort\<close> with a comparison function is a stable sort: here the insertion
  sort that puts \<open>x\<close> behind \<open>y\<close> exactly when \<open>cmp(x, y) > 0\<close>. The two comparison functions
  are \<open>(a, b) => a.amount - b.amount\<close> and \<open>(a, b) => b.amount - a.amount\<close>.
\<close>

fun insort_by :: "('a \<Rightarrow> 'a \<Rightarrow> double) \<Rightarrow> 'a \<Rightarrow> 'a list \<Rightarrow> 'a list" where
  "insort_by cmp x [] = [x]"
| "insort_by cmp x (y # ys) =
     (if d_less (Finite 0) (cmp x y) then y # insort_by cmp x ys else x # y # ys)"

definition sort_by :: "('a \<Rightarrow> 'a \<Rightarrow> double) \<Rightarrow> 'a list \<Rightarrow> 'a list" where
  "sort_by cmp xs = foldr (insort_by cmp) xs []"

definition sort_debtors_fp :: "entry_fp list \<Rightarrow> entry_fp list" where
  "sort_debtors_fp ds = sort_by (\<lambda>a b. d_sub (entry_amount_fp a) (entry_amount_fp b)) ds"

definition sort_creditors_fp :: "entry_fp list \<Rightarrow> entry_fp list" where
  "sort_creditors_fp cs = sort_by (\<lambda>a b. d_sub (entry_amount_fp b) (entry_amount_fp a)) cs"

text \<open>
  The \<open>while\<close> loop: \<open>amountToSettle = Math.min(Math.abs(debtor.amount), creditor.amount)\<close>,
  the push of \<open>{ from, to, amount: amountToSettle.toFixed(2) }\<close>,
  \<open>debtor.amount += amountToSettle\<close>, \<open>creditor.amount -= amountToSettle\<close>, and the two
  cursor moves \<open>if (Math.abs(debtor.amount) < 0.01) i++\<close> and
  \<open>if (creditor.amount < 0.01) j++\<close>.
\<close>

type_synonym loop_state_fp =
  "nat \<times> nat \<times> entry_fp list \<times> entry_fp list \<times> transaction_fp list"

definition loop_cond_fp :: "loop_state_fp \<Rightarrow> bool" where
  "loop_cond_fp s = (case s of (i, j, debtors, creditors, transactions) \<Rightarrow>
     i < length debtors \<and> j < length creditors)"

definition loop_body_fp :: "loop_state_fp \<Rightarrow> loop_state_fp" where
  "loop_body_fp s = (case s of (i, j, debtors, creditors, transactions) \<Rightarrow>
     let debtor = debtors ! i;
         creditor = creditors ! j;
         amountToSettle = d_min (d_abs (entry_amount_fp debtor)) (entry_amount_fp creditor);
         transactions' = transactions @
           [\<lparr>tx_from_fp = person_fp debtor, tx_to_fp = person_fp creditor,
             tx_amount_fp = d_toFixed2 amountToSettle\<rparr>];
         debtor' = debtor\<lparr>entry_amount_fp := d_add (entry_amount_fp debtor) amountToSettle\<rparr>;
         creditor' = creditor\<lparr>entry_amount_fp := d_sub (entry_amount_fp creditor) amountToSettle\<rparr>;
         i' = (if d_less (d_abs (entry_amount_fp debtor')) cent then i + 1 else i);
         j' = (if d_less (entry_amount_fp creditor') cent then j + 1 else j)
     in (i', j', debtors[i := debtor'], creditors[j := creditor'], transactions'))"

text \<open>The loop returns the state it stops in; a loop that does not stop has the value \<open>None\<close>.\<close>

partial_function (option) greedy_loop_fp :: "loop_state_fp \<Rightarrow> loop_state_fp option" where
  "greedy_loop_fp s = (if loop_cond_fp s then greedy_loop_fp (loop_body_fp s) else Some s)"

declare greedy_loop_fp.simps [code]

definition initial_state_fp :: "balance_map_fp \<Rightarrow> loop_state_fp" where
  "initial_state_fp bal =
     (0, 0, sort_debtors_fp (debtors_of_fp bal), sort_creditors_fp (creditors_of_fp bal), [])"

definition calculateSettlements_fp :: "balance_map_fp \<Rightarrow> transaction_fp list option" where
  "calculateSettlements_fp bal =
     map_option (\<lambda>(i, j, debtors, creditors, transactions). transactions)
       (greedy_loop_fp (initial_state_fp bal))"

section \<open>Notions used in the statements about doubles\<close>

text \<open>
  A balance whose rounded value is infinite: \<open>amount * 100\<close> has overflowed. Such a balance
  is a debtor entry of amount \<open>-Infinity\<close> or a creditor entry of amount \<open>Infinity\<close>.
\<close>

fun is_finite :: "double \<Rightarrow> bool" where
  "is_finite (Finite x) = True"
| "is_finite a = False"

definition infinite_debtor :: "balance_map_fp \<Rightarrow> bool" where
  "infinite_debtor bal = list_ex (\<lambda>d. entry_amount_fp d = NegInf) (debtors_of_fp bal)"

definition infinite_creditor :: "balance_map_fp \<Rightarrow> bool" where
  "infinite_creditor bal = list_ex (\<lambda>c. entry_amount_fp c = PosInf) (creditors_of_fp bal)"

text \<open>An expense whose payer and involved members are all drawn from the roster.\<close>

definition from_roster_fp :: "string list \<Rightarrow> expense_fp \<Rightarrow> bool" where
  "from_roster_fp participants e =
     (payer_fp e \<in> set participants \<and>
      (case involved_fp e of None \<Rightarrow> True | Some members \<Rightarrow> set members \<subseteq> set participants))"

text \<open>The rational that a finite double denotes (0 for the others).\<close>

fun value_of :: "double \<Rightarrow> rat" where
  "value_of (Finite x) = x"
| "value_of a = 0"

text \<open>Every value of the object is a finite double.\<close>

definition all_finite :: "balance_map_fp \<Rightarrow> bool" where
  "all_finite bal = list_all (\<lambda>kv. is_finite (snd kv)) bal"

text \<open>The sum of the values of a balance object, taken exactly.\<close>

definition exact_sum :: "balance_map_fp \<Rightarrow> rat" where
  "exact_sum bal = sum_list (map (\<lambda>kv. value_of (snd kv)) bal)"

text \<open>
  The size of a list of expenses: the total of the magnitudes of its amounts, and the number
  of updates that the balance computation makes for it, one for the payer and one for each
  involved member of every expense that is not skipped.
\<close>

definition total_spent :: "expense_fp list \<Rightarrow> rat" where
  "total_spent expenses = sum_list (map (\<lambda>e. \<bar>value_of (amount_fp e)\<bar>) expenses)"

definition updates_of :: "expense_fp \<Rightarrow> nat" where
  "updates_of e = (case involved_fp e of None \<Rightarrow> 0
     | Some members \<Rightarrow> if length members = 0 then 0 else length members + 1)"

definition updates :: "expense_fp list \<Rightarrow> nat" where
  "updates expenses = sum_list (map updates_of expenses)"

section \<open>Notions used in the proofs about doubles\<close>

text \<open>
  The invariant of the loop on doubles: a debtor amount is never positive, a creditor amount
  never negative, none is \<open>NaN\<close>, and one of the two arrays holds finite amounts only. A
  state is stuck when both current amounts are infinite, or both are \<open>NaN\<close>.
\<close>

definition deb_ok :: "double \<Rightarrow> bool" where
  "deb_ok v = (case v of Finite x \<Rightarrow> - pow2 1023 \<le> x \<and> x \<le> 0 | NegInf \<Rightarrow> True | _ \<Rightarrow> False)"

definition cred_ok :: "double \<Rightarrow> bool" where
  "cred_ok v = (case v of Finite x \<Rightarrow> 0 \<le> x \<and> x \<le> pow2 1023 | PosInf \<Rightarrow> True | _ \<Rightarrow> False)"

definition term_inv :: "loop_state_fp \<Rightarrow> bool" where
  "term_inv s = (case s of (i, j, ds, cs, ts) \<Rightarrow>
     i \<le> length ds \<and> j \<le> length cs \<and>
     (\<forall>d \<in> set ds. deb_ok (entry_amount_fp d)) \<and>
     (\<forall>c \<in> set cs. cred_ok (entry_amount_fp c)) \<and>
     ((\<forall>d \<in> set ds. is_finite (entry_amount_fp d)) \<or>
      (\<forall>c \<in> set cs. is_finite (entry_amount_fp c))))"

definition remaining_fp :: "loop_state_fp \<Rightarrow> nat" where
  "remaining_fp s = (case s of (i, j, ds, cs, ts) \<Rightarrow> (length ds - i) + (length cs - j))"

definition stuck :: "loop_state_fp \<Rightarrow> bool" where
  "stuck s = (case s of (i, j, ds, cs, ts) \<Rightarrow>
     i < length ds \<and> j < length cs \<and>
     ((entry_amount_fp (ds ! i) = NegInf \<and> entry_amount_fp (cs ! j) = PosInf) \<or>
      (entry_amount_fp (ds ! i) = NaN \<and> entry_amount_fp (cs ! j) = NaN)))"

text \<open>
  For the error analysis of the balance computation: the sum of the magnitudes of the values
  of a balance object, and the bound on the error of one rounded operation whose exact result
  has magnitude at most \<open>L\<close>.
\<close>

definition l1_norm :: "balance_map_fp \<Rightarrow> rat" where
  "l1_norm bal = sum_list (map (\<lambda>kv. \<bar>value_of (snd kv)\<bar>) bal)"

definition err :: "rat \<Rightarrow> rat" where
  "err L = L * pow2 (- 53) + pow2 (- 1075)"

definition cost :: "rat \<Rightarrow> expense_fp list \<Rightarrow> rat" where
  "cost L expenses = 2 * total_spent expenses + 2 * of_nat (updates expenses) * err L"

section \<open>The balance object\<close>

lemma obj_get_obj_set: "obj_get (obj_set bal k v) k' = (if k' = k then v else obj_get bal k')"
  by (induction bal) (auto simp: obj_get_def)

lemma keys_obj_set: "set (obj_keys (obj_set bal k v)) = insert k (set (obj_keys bal))"
  by (induction bal k v rule: obj_set.induct) (auto simp: obj_keys_def)

lemma add_expense_skipped:
  "involved e = None \<or> involved e = Some [] \<Longrightarrow> add_expense bal e = bal"
  by (auto simp: add_expense_def)

lemma debit_all_Nil: "debit_all share bal [] = bal"
  by (simp add: debit_all_def)

lemma debit_all_Cons:
  "debit_all share bal (m # ms) =
     debit_all share (obj_set bal m (js_sub (obj_get bal m) (Some share))) ms"
  by (simp add: debit_all_def)

lemma obj_get_debit_all:
  "distinct members \<Longrightarrow>
   obj_get (debit_all share bal members) p =
     (if p \<in> set members then js_sub (obj_get bal p) (Some share) else obj_get bal p)"
  by (induction members arbitrary: bal) (auto simp: debit_all_Nil debit_all_Cons obj_get_obj_set)

lemma add_expense_debit_all:
  "involved e = Some members \<Longrightarrow> members \<noteq> [] \<Longrightarrow>
   add_expense bal e =
     debit_all (amount e / of_nat (length members))
       (obj_set bal (payer e) (js_add (obj_get bal (payer e)) (Some (amount e)))) members"
  by (simp add: add_expense_def debit_all_def)

lemma js_add_zero: "js_add a (Some 0) = a" "js_sub a (Some 0) = a"
  by (auto simp: js_add_def js_sub_def split: option.splits)

lemma obj_get_add_expense:
  assumes "involved e = Some members" "members \<noteq> []" "distinct members"
  shows "obj_get (add_expense bal e) p =
     js_sub (js_add (obj_get bal p) (Some (if p = payer e then amount e else 0)))
       (Some (if p \<in> set members then amount e / of_nat (length members) else 0))"
  using assms
  by (simp add: add_expense_debit_all obj_get_debit_all obj_get_obj_set js_add_zero)

lemma balances_snoc: "balances ps (es @ [e]) = add_expense (balances ps es) e"
  by (simp add: balances_def)

lemma js_add_zero_left: "js_add (Some 0) a = a"
  by (simp add: js_add_def split: option.splits)

lemma js_add_assoc: "js_add (js_add a b) c = js_add a (js_add b c)"
  by (simp add: js_add_def split: option.splits)

lemma foldl_js_add: "foldl js_add a vs = js_add a (foldl js_add (Some 0) vs)"
proof (induction vs arbitrary: a)
  case Nil
  show ?case by (simp add: js_add_zero)
next
  case (Cons v vs)
  have 1: "foldl js_add (js_add a v) vs = js_add (js_add a v) (foldl js_add (Some 0) vs)"
    by (rule Cons.IH)
  have 2: "foldl js_add v vs = js_add v (foldl js_add (Some 0) vs)"
    by (rule Cons.IH)
  show ?case by (simp only: foldl.simps js_add_zero_left 1 2 js_add_assoc)
qed

lemma sum_values_Nil: "sum_values [] = Some 0"
  by (simp add: sum_values_def)

lemma sum_values_Cons: "sum_values ((k, v) # bal) = js_add v (sum_values bal)"
  unfolding sum_values_def using foldl_js_add [of v "map snd bal"]
  by (simp add: js_add_zero_left)

lemma sum_values_snoc: "sum_values (bal @ [(k, v)]) = js_add (sum_values bal) v"
  by (simp add: sum_values_def)

lemma sum_values_key:
  "sum_values bal = Some s \<Longrightarrow> k \<in> set (obj_keys bal) \<Longrightarrow> \<exists>x. map_of bal k = Some (Some x)"
proof (induction bal arbitrary: s)
  case Nil
  then show ?case by (simp add: obj_keys_def)
next
  case (Cons kv bal)
  obtain k' v where kv: "kv = (k', v)" by (cases kv)
  from Cons.prems(1) obtain x t where v: "v = Some x" and t: "sum_values bal = Some t"
    by (auto simp: kv sum_values_Cons js_add_def split: option.splits)
  show ?case
  proof (cases "k' = k")
    case True
    then show ?thesis by (simp add: kv v)
  next
    case False
    then have "k \<in> set (obj_keys bal)" using Cons.prems(2) by (auto simp: kv obj_keys_def)
    from Cons.IH [OF t this] show ?thesis using False by (simp add: kv)
  qed
qed

lemma sum_values_obj_set:
  "map_of bal k = Some (Some x) \<Longrightarrow> sum_values bal = Some s \<Longrightarrow>
   sum_values (obj_set bal k (Some y)) = Some (s - x + y)"
proof (induction bal arbitrary: s)
  case Nil
  then show ?case by simp
next
  case (Cons kv bal)
  obtain k' v where kv: "kv = (k', v)" by (cases kv)
  from Cons.prems(2) obtain z t where v: "v = Some z" and t: "sum_values bal = Some t"
    and s: "s = z + t"
    by (auto simp: kv sum_values_Cons js_add_def split: option.splits)
  show ?case
  proof (cases "k' = k")
    case True
    then show ?thesis using Cons.prems(1) by (simp add: kv v t s sum_values_Cons js_add_def)
  next
    case False
    then have "map_of bal k = Some (Some x)" using Cons.prems(1) by (simp add: kv)
    from Cons.IH [OF this t] show ?thesis using False
      by (simp add: kv v s sum_values_Cons js_add_def)
  qed
qed

lemma obj_get_map_of: "map_of bal k = Some (Some x) \<Longrightarrow> obj_get bal k = Some x"
  by (simp add: obj_get_def)

lemma sum_values_credit:
  assumes "sum_values bal = Some s" "k \<in> set (obj_keys bal)"
  shows "sum_values (obj_set bal k (js_add (obj_get bal k) (Some a))) = Some (s + a)"
proof -
  from sum_values_key [OF assms] obtain x where x: "map_of bal k = Some (Some x)" ..
  then show ?thesis
    using sum_values_obj_set [OF x assms(1), of "x + a"]
    by (simp add: obj_get_map_of js_add_def)
qed

lemma sum_values_debit:
  assumes "sum_values bal = Some s" "k \<in> set (obj_keys bal)"
  shows "sum_values (obj_set bal k (js_sub (obj_get bal k) (Some a))) = Some (s - a)"
proof -
  from sum_values_key [OF assms] obtain x where x: "map_of bal k = Some (Some x)" ..
  then show ?thesis
    using sum_values_obj_set [OF x assms(1), of "x - a"]
    by (simp add: obj_get_map_of js_sub_def)
qed

lemma keys_obj_set_mem:
  "k \<in> set (obj_keys bal) \<Longrightarrow> set (obj_keys (obj_set bal k v)) = set (obj_keys bal)"
  by (auto simp: keys_obj_set)

lemma debit_all_sum:
  "sum_values bal = Some s \<Longrightarrow> set members \<subseteq> set (obj_keys bal) \<Longrightarrow>
   sum_values (debit_all share bal members) = Some (s - of_nat (length members) * share)
   \<and> set (obj_keys (debit_all share bal members)) = set (obj_keys bal)"
proof (induction members arbitrary: bal s)
  case Nil
  then show ?case by (simp add: debit_all_Nil)
next
  case (Cons m ms)
  let ?b = "obj_set bal m (js_sub (obj_get bal m) (Some share))"
  have m: "m \<in> set (obj_keys bal)" using Cons.prems(2) by simp
  have 1: "sum_values ?b = Some (s - share)" by (rule sum_values_debit [OF Cons.prems(1) m])
  have 2: "set (obj_keys ?b) = set (obj_keys bal)" by (rule keys_obj_set_mem [OF m])
  have 3: "set ms \<subseteq> set (obj_keys ?b)" using Cons.prems(2) 2 by simp
  from Cons.IH [OF 1 3] show ?case by (simp add: debit_all_Cons 2 algebra_simps)
qed

lemma add_expense_sum:
  assumes "sum_values bal = Some s" "payer e \<in> set (obj_keys bal)"
    and "\<And>members. involved e = Some members \<Longrightarrow> set members \<subseteq> set (obj_keys bal)"
  shows "sum_values (add_expense bal e) = Some s
    \<and> set (obj_keys (add_expense bal e)) = set (obj_keys bal)"
proof (cases "involved e = None \<or> involved e = Some []")
  case True
  then show ?thesis using assms(1) by (simp add: add_expense_skipped)
next
  case False
  then obtain members where mem: "involved e = Some members" "members \<noteq> []" by auto
  let ?b = "obj_set bal (payer e) (js_add (obj_get bal (payer e)) (Some (amount e)))"
  have 1: "sum_values ?b = Some (s + amount e)" by (rule sum_values_credit [OF assms(1,2)])
  have 2: "set (obj_keys ?b) = set (obj_keys bal)" by (rule keys_obj_set_mem [OF assms(2)])
  have 3: "set members \<subseteq> set (obj_keys ?b)" using assms(3) [OF mem(1)] 2 by simp
  have n: "of_nat (length members) \<noteq> (0::rat)" using mem(2) by simp
  from debit_all_sum [OF 1 3, of "amount e / of_nat (length members)"] n
  show ?thesis by (simp add: add_expense_debit_all [OF mem] 2)
qed

lemma init_balances_snoc: "init_balances (ps @ [p]) = obj_set (init_balances ps) p (Some 0)"
  by (simp add: init_balances_def)

lemma obj_set_zero:
  "\<forall>v \<in> set (map snd bal). v = Some 0 \<Longrightarrow> \<forall>v \<in> set (map snd (obj_set bal k (Some 0))). v = Some 0"
  by (induction bal k "Some (0::rat)" rule: obj_set.induct) auto

lemma init_balances_zero: "\<forall>v \<in> set (map snd (init_balances ps)). v = Some 0"
proof (induction ps rule: rev_induct)
  case Nil
  show ?case by (simp add: init_balances_def)
next
  case (snoc p ps)
  then show ?case unfolding init_balances_snoc by (rule obj_set_zero)
qed

lemma sum_values_zero: "\<forall>v \<in> set (map snd bal). v = Some 0 \<Longrightarrow> sum_values bal = Some 0"
proof (induction bal)
  case Nil
  show ?case by (rule sum_values_Nil)
next
  case (Cons kv bal)
  then show ?case by (cases kv) (simp add: sum_values_Cons js_add_def)
qed

lemma init_balances_keys: "set (obj_keys (init_balances ps)) = set ps"
proof (induction ps rule: rev_induct)
  case Nil
  show ?case by (simp add: init_balances_def obj_keys_def)
next
  case (snoc p ps)
  then show ?case by (simp add: init_balances_snoc keys_obj_set)
qed

lemma balances_sum:
  assumes "list_all (from_roster ps) es"
  shows "sum_values (balances ps es) = Some 0 \<and> set (obj_keys (balances ps es)) = set ps"
  using assms
proof (induction es rule: rev_induct)
  case Nil
  show ?case by (simp add: balances_def init_balances_keys sum_values_zero [OF init_balances_zero])
next
  case (snoc e es)
  then have IH: "sum_values (balances ps es) = Some 0" "set (obj_keys (balances ps es)) = set ps"
    by simp_all
  have p: "payer e \<in> set (obj_keys (balances ps es))"
    using snoc.prems IH(2) by (simp add: from_roster_def)
  have m: "\<And>members. involved e = Some members \<Longrightarrow> set members \<subseteq> set (obj_keys (balances ps es))"
    using snoc.prems IH(2) by (simp add: from_roster_def)
  from add_expense_sum [OF IH(1) p m] show ?case by (simp add: balances_snoc IH(2))
qed

section \<open>Claims about the balance computation\<close>

text \<open>
  C8. An expense whose involved list is empty (or missing) contributes nothing: the balance
  object computed from a list containing it is the one computed from the list without it.
\<close>

theorem empty_involved_skipped:
  assumes "involved e = None \<or> involved e = Some []"
  shows "balances participants (es1 @ e # es2) = balances participants (es1 @ es2)"
  using assms by (simp add: balances_def add_expense_skipped)

theorem empty_involved_skipped_witness:
  "(involved \<lparr>amount = 10, payer = ''A'', involved = Some []\<rparr> = None
      \<or> involved \<lparr>amount = 10, payer = ''A'', involved = Some []\<rparr> = Some [])
   \<and> balances [''A'', ''B'', ''C''] ([] @ \<lparr>amount = 10, payer = ''A'', involved = Some []\<rparr> # [])
       = [(''A'', Some 0), (''B'', Some 0), (''C'', Some 0)]"
proof -
  let ?e = "\<lparr>amount = 10, payer = ''A'', involved = Some []\<rparr>"
  have h: "involved ?e = None \<or> involved ?e = Some []" by simp
  have "balances [''A'', ''B'', ''C''] ([] @ []) = [(''A'', Some 0), (''B'', Some 0), (''C'', Some 0)]"
    by (simp add: balances_def init_balances_def)
  with empty_involved_skipped [OF h, of "[''A'', ''B'', ''C'']" "[]" "[]"] h
  show ?thesis by simp
qed

section \<open>The settlement loop\<close>

lemma greedy_loop_rule:
  assumes "I s"
    and "\<And>s. I s \<Longrightarrow> loop_cond s \<Longrightarrow> I (loop_body s) \<and> m (loop_body s) < (m s :: nat)"
  shows "\<exists>s'. greedy_loop s = Some s' \<and> I s' \<and> \<not> loop_cond s'"
  using assms(1)
proof (induction "m s" arbitrary: s rule: less_induct)
  case less
  show ?case
  proof (cases "loop_cond s")
    case True
    from assms(2) [OF less.prems True] have "I (loop_body s)" "m (loop_body s) < m s" by simp_all
    from less.hyps [OF this(2) this(1)] show ?thesis
      by (subst greedy_loop.simps) (simp add: True)
  next
    case False
    then show ?thesis using less.prems by (subst greedy_loop.simps) simp
  qed
qed

lemma is_centsI: "x = of_int n / 100 \<Longrightarrow> is_cents x"
proof -
  assume "x = of_int n / 100"
  then have eq: "x * 100 = of_int n" by simp
  show ?thesis unfolding is_cents_def eq by simp
qed

lemma is_centsE:
  assumes "is_cents x" obtains n :: int where "x = of_int n / 100"
proof -
  from assms obtain n :: int where "x * 100 = of_int n" by (auto simp: is_cents_def)
  then have "x = of_int n / 100" by simp
  then show ?thesis by (rule that)
qed

lemma is_cents_0: "is_cents 0"
  by (simp add: is_cents_def)

lemma is_cents_add: "is_cents x \<Longrightarrow> is_cents y \<Longrightarrow> is_cents (x + y)"
proof -
  assume "is_cents x" "is_cents y"
  then obtain n m :: int where "x = of_int n / 100" "y = of_int m / 100"
    by (auto elim!: is_centsE)
  then have "x + y = of_int (n + m) / 100" by (simp add: add_divide_distrib)
  then show ?thesis by (rule is_centsI)
qed

lemma is_cents_minus: "is_cents x \<Longrightarrow> is_cents (- x)"
proof -
  assume "is_cents x"
  then obtain n :: int where "x = of_int n / 100" by (auto elim!: is_centsE)
  then have "- x = of_int (- n) / 100" by simp
  then show ?thesis by (rule is_centsI)
qed

lemma is_cents_diff: "is_cents x \<Longrightarrow> is_cents y \<Longrightarrow> is_cents (x - y)"
  using is_cents_add [of x "- y"] by (simp add: is_cents_minus)

lemma is_cents_round2: "is_cents (round2 a)"
  by (rule is_centsI) (simp add: round2_def)

lemma cents_pos: "is_cents x \<Longrightarrow> 0 < x \<Longrightarrow> 1 / 100 \<le> x"
proof -
  assume "is_cents x" "0 < x"
  then obtain n :: int where x: "x = of_int n / 100" by (auto elim!: is_centsE)
  with \<open>0 < x\<close> have "0 < n" by simp
  then have "1 \<le> n" by simp
  then have "(1::rat) \<le> of_int n" by linarith
  then show ?thesis by (simp add: x)
qed

lemma cents_small: "is_cents x \<Longrightarrow> \<bar>x\<bar> < 1 / 100 \<Longrightarrow> x = 0"
  using cents_pos [of x] cents_pos [of "- x"] is_cents_minus [of x] by (cases "0 < x"; cases "x < 0") auto

lemma toFixed2_cents: "is_cents x \<Longrightarrow> 0 \<le> x \<Longrightarrow> toFixed2 x = x"
proof -
  assume "is_cents x" "0 \<le> x"
  then obtain n :: int where x: "x = of_int n / 100" by (auto elim!: is_centsE)
  have "\<lfloor>(of_int n :: rat) + 1 / 2\<rfloor> = n" by linarith
  then show ?thesis using \<open>0 \<le> x\<close> by (simp add: toFixed2_def x)
qed

lemma loop_body_unfold:
  "loop_body (i, j, ds, cs, ts) =
     (let d = entry_amount (ds ! i); c = entry_amount (cs ! j); a = min \<bar>d\<bar> c
      in (if \<bar>d + a\<bar> < 1 / 100 then i + 1 else i, if c - a < 1 / 100 then j + 1 else j,
          set_amount ds i (d + a), set_amount cs j (c - a), ts @ [mk_tx ds cs i j (toFixed2 a)]))"
  by (simp add: loop_body_def Let_def set_amount_def mk_tx_def)

lemma base_inv_cursor:
  assumes "base_inv (i, j, ds, cs, ts)" "loop_cond (i, j, ds, cs, ts)"
  shows "is_cents (entry_amount (ds ! i))" "entry_amount (ds ! i) \<le> - (1 / 100)"
    "is_cents (entry_amount (cs ! j))" "1 / 100 \<le> entry_amount (cs ! j)"
  using assms by (auto simp: base_inv_def loop_cond_def debtor_ok_def creditor_ok_def)

lemma loop_body_cases:
  assumes inv: "base_inv (i, j, ds, cs, ts)" and cond: "loop_cond (i, j, ds, cs, ts)"
  defines "d \<equiv> entry_amount (ds ! i)" and "c \<equiv> entry_amount (cs ! j)"
  shows "loop_body (i, j, ds, cs, ts) =
     (if - d < c then
        (i + 1, j, set_amount ds i 0, set_amount cs j (c + d), ts @ [mk_tx ds cs i j (- d)])
      else if - d = c then
        (i + 1, j + 1, set_amount ds i 0, set_amount cs j 0, ts @ [mk_tx ds cs i j c])
      else
        (i, j + 1, set_amount ds i (d + c), set_amount cs j 0, ts @ [mk_tx ds cs i j c]))"
proof -
  note cur = base_inv_cursor [OF inv cond, folded d_def c_def]
  have d: "is_cents d" "d \<le> - (1 / 100)" and c: "is_cents c" "1 / 100 \<le> c"
    using cur by simp_all
  have dneg: "\<bar>d\<bar> = - d" using d(2) by simp
  consider (less) "- d < c" | (eq) "- d = c" | (greater) "c < - d" by linarith
  then show ?thesis
  proof cases
    case less
    then have a: "min \<bar>d\<bar> c = - d" by (simp add: dneg)
    have "is_cents (c + d)" using c(1) d(1) by (rule is_cents_add)
    moreover have "0 < c + d" using less by simp
    ultimately have "1 / 100 \<le> c + d" by (rule cents_pos)
    then have rest: "\<not> c + d < 1 / 100" by simp
    have fx: "toFixed2 (- d) = - d"
      using d by (intro toFixed2_cents is_cents_minus) simp_all
    show ?thesis
      unfolding loop_body_unfold d_def [symmetric] c_def [symmetric] Let_def a
      using less rest by (simp add: fx)
  next
    case eq
    then have a: "min \<bar>d\<bar> c = c" by (simp add: dneg)
    have fx: "toFixed2 c = c" using c by (intro toFixed2_cents) simp_all
    have dc: "d + c = 0" using eq by simp
    show ?thesis
      unfolding loop_body_unfold d_def [symmetric] c_def [symmetric] Let_def a
      using eq by (simp add: fx dc)
  next
    case greater
    then have a: "min \<bar>d\<bar> c = c" by (simp add: dneg)
    have fx: "toFixed2 c = c" using c by (intro toFixed2_cents) simp_all
    have "is_cents (- (d + c))" using c(1) d(1) by (intro is_cents_minus is_cents_add)
    moreover have "0 < - (d + c)" using greater by simp
    ultimately have "1 / 100 \<le> - (d + c)" by (rule cents_pos)
    then have rest: "\<not> \<bar>d + c\<bar> < 1 / 100" by simp
    show ?thesis
      unfolding loop_body_unfold d_def [symmetric] c_def [symmetric] Let_def a
      using greater rest by (simp add: fx)
  qed
qed

lemma length_set_amount: "length (set_amount xs i v) = length xs"
  by (simp add: set_amount_def)

lemma amount_set_amount:
  "k < length xs \<Longrightarrow>
   entry_amount (set_amount xs i v ! k) = (if k = i then v else entry_amount (xs ! k))"
  by (simp add: set_amount_def nth_list_update)

lemma person_set_amount: "k < length xs \<Longrightarrow> person (set_amount xs i v ! k) = person (xs ! k)"
  by (cases "k = i") (simp_all add: set_amount_def)

lemma map_person_set_amount: "map person (set_amount xs i v) = map person xs"
  by (rule nth_equalityI) (simp_all add: length_set_amount person_set_amount)

lemma debtor_ok_settled: "debtor_ok (Suc i) i 0"
  by (simp add: debtor_ok_def is_cents_0)

lemma creditor_ok_settled: "creditor_ok (Suc j) j 0"
  by (simp add: creditor_ok_def is_cents_0)

lemma debtor_ok_other: "debtor_ok i k x \<Longrightarrow> k \<noteq> i \<Longrightarrow> debtor_ok (Suc i) k x"
  by (auto simp: debtor_ok_def)

lemma creditor_ok_other: "creditor_ok j k x \<Longrightarrow> k \<noteq> j \<Longrightarrow> creditor_ok (Suc j) k x"
  by (auto simp: creditor_ok_def)

lemma debtor_ok_rest: "is_cents x \<Longrightarrow> x < 0 \<Longrightarrow> debtor_ok i i x"
  using cents_pos [of "- x"] by (simp add: debtor_ok_def is_cents_minus)

lemma creditor_ok_rest: "is_cents x \<Longrightarrow> 0 < x \<Longrightarrow> creditor_ok j j x"
  using cents_pos [of x] by (simp add: creditor_ok_def)

lemma base_inv_step:
  assumes inv: "base_inv s" and cond: "loop_cond s"
  shows "base_inv (loop_body s) \<and> remaining (loop_body s) < remaining s"
proof -
  obtain i j ds cs ts where s: "s = (i, j, ds, cs, ts)" by (cases s)
  define d where "d = entry_amount (ds ! i)"
  define c where "c = entry_amount (cs ! j)"
  note cur = base_inv_cursor [OF inv [unfolded s] cond [unfolded s], folded d_def c_def]
  note body = loop_body_cases [OF inv [unfolded s] cond [unfolded s], folded d_def c_def]
  have ij: "i < length ds" "j < length cs" using cond by (simp_all add: s loop_cond_def)
  have old_d: "\<And>k. k < length ds \<Longrightarrow> debtor_ok i k (entry_amount (ds ! k))"
    using inv unfolding s base_inv_def prod.case by blast
  have old_c: "\<And>k. k < length cs \<Longrightarrow> creditor_ok j k (entry_amount (cs ! k))"
    using inv unfolding s base_inv_def prod.case by blast
  have cd: "is_cents (c + d)" "is_cents (d + c)"
    using cur by (simp_all add: is_cents_add)
  consider (less) "- d < c" | (eq) "- d = c" | (greater) "c < - d" by linarith
  then show ?thesis
  proof cases
    case less
    have rest: "creditor_ok j j (c + d)" using cd(1) less by (intro creditor_ok_rest) simp_all
    have "base_inv (i + 1, j, set_amount ds i 0, set_amount cs j (c + d), ts @ [mk_tx ds cs i j (- d)])"
      unfolding base_inv_def using ij old_d old_c rest
      by (auto simp: length_set_amount amount_set_amount debtor_ok_settled debtor_ok_other)
    then show ?thesis using less ij by (simp add: s body remaining_def length_set_amount)
  next
    case eq
    have "base_inv (i + 1, j + 1, set_amount ds i 0, set_amount cs j 0, ts @ [mk_tx ds cs i j c])"
      unfolding base_inv_def using ij old_d old_c
      by (auto simp: length_set_amount amount_set_amount debtor_ok_settled debtor_ok_other
          creditor_ok_settled creditor_ok_other)
    then show ?thesis using eq ij by (simp add: s body remaining_def length_set_amount)
  next
    case greater
    have rest: "debtor_ok i i (d + c)" using cd(2) greater by (intro debtor_ok_rest) simp_all
    have "base_inv (i, j + 1, set_amount ds i (d + c), set_amount cs j 0, ts @ [mk_tx ds cs i j c])"
      unfolding base_inv_def using ij old_d old_c rest
      by (auto simp: length_set_amount amount_set_amount creditor_ok_settled creditor_ok_other)
    then show ?thesis using greater ij by (simp add: s body remaining_def length_set_amount)
  qed
qed

lemma greedy_loop_inv:
  assumes "base_inv s" "I s"
    and "\<And>s. base_inv s \<Longrightarrow> loop_cond s \<Longrightarrow> I s \<Longrightarrow> I (loop_body s)"
  shows "\<exists>s'. greedy_loop s = Some s' \<and> base_inv s' \<and> I s' \<and> \<not> loop_cond s'"
proof -
  have "\<exists>s'. greedy_loop s = Some s' \<and> (base_inv s' \<and> I s') \<and> \<not> loop_cond s'"
  proof (rule greedy_loop_rule [where m = remaining])
    show "base_inv s \<and> I s" using assms(1,2) by simp
  next
    fix s assume "base_inv s \<and> I s" "loop_cond s"
    then show "(base_inv (loop_body s) \<and> I (loop_body s)) \<and> remaining (loop_body s) < remaining s"
      using base_inv_step [of s] assms(3) [of s] by simp
  qed
  then show ?thesis by blast
qed

lemma debtors_of_entries:
  "d \<in> set (debtors_of bal) \<Longrightarrow> is_cents (entry_amount d) \<and> entry_amount d < - (1 / 100)"
  by (induction bal rule: debtors_of.induct) (auto simp: is_cents_round2 split: if_splits)

lemma creditors_of_entries:
  "c \<in> set (creditors_of bal) \<Longrightarrow> is_cents (entry_amount c) \<and> 1 / 100 < entry_amount c"
  by (induction bal rule: creditors_of.induct) (auto simp: is_cents_round2 split: if_splits)

lemma base_inv_initial: "base_inv (initial_state bal)"
proof -
  have "debtor_ok 0 k (entry_amount (sort_debtors (debtors_of bal) ! k))"
    if "k < length (sort_debtors (debtors_of bal))" for k
  proof -
    from that have "sort_debtors (debtors_of bal) ! k \<in> set (sort_debtors (debtors_of bal))"
      by (rule nth_mem)
    then have "sort_debtors (debtors_of bal) ! k \<in> set (debtors_of bal)"
      by (simp add: sort_debtors_def)
    from debtors_of_entries [OF this] show ?thesis by (simp add: debtor_ok_def)
  qed
  moreover have "creditor_ok 0 k (entry_amount (sort_creditors (creditors_of bal) ! k))"
    if "k < length (sort_creditors (creditors_of bal))" for k
  proof -
    from that have "sort_creditors (creditors_of bal) ! k \<in> set (sort_creditors (creditors_of bal))"
      by (rule nth_mem)
    then have "sort_creditors (creditors_of bal) ! k \<in> set (creditors_of bal)"
      by (simp add: sort_creditors_def)
    from creditors_of_entries [OF this] show ?thesis by (simp add: creditor_ok_def)
  qed
  ultimately show ?thesis by (simp add: base_inv_def initial_state_def)
qed

lemma settle_result:
  assumes "I (initial_state bal)"
    and "\<And>s. base_inv s \<Longrightarrow> loop_cond s \<Longrightarrow> I s \<Longrightarrow> I (loop_body s)"
  shows "\<exists>i j ds cs ts. calculateSettlements bal = Some ts \<and> base_inv (i, j, ds, cs, ts)
    \<and> I (i, j, ds, cs, ts) \<and> \<not> loop_cond (i, j, ds, cs, ts)"
proof -
  from greedy_loop_inv [of "initial_state bal" I, OF base_inv_initial assms]
  obtain s' where s': "greedy_loop (initial_state bal) = Some s'" "base_inv s'" "I s'"
    "\<not> loop_cond s'" by blast
  obtain i j ds cs ts where "s' = (i, j, ds, cs, ts)" by (cases s')
  with s' show ?thesis
    by (auto simp: calculateSettlements_def)
qed



lemma loop_body_uniform:
  assumes inv: "base_inv (i, j, ds, cs, ts)" and cond: "loop_cond (i, j, ds, cs, ts)"
  obtains a i' j' where
    "loop_body (i, j, ds, cs, ts) =
       (i', j', set_amount ds i (entry_amount (ds ! i) + a),
        set_amount cs j (entry_amount (cs ! j) - a), ts @ [mk_tx ds cs i j a])"
    "0 < a" "is_cents a"
proof -
  define d where "d = entry_amount (ds ! i)"
  define c where "c = entry_amount (cs ! j)"
  note cur = base_inv_cursor [OF inv cond, folded d_def c_def]
  note body = loop_body_cases [OF inv cond, folded d_def c_def]
  have d: "0 < - d" "is_cents (- d)" using cur by (simp_all add: is_cents_minus)
  have c: "0 < c" "is_cents c" using cur by simp_all
  show ?thesis
  proof (cases "- d < c")
    case True
    show ?thesis
    proof (rule that [of "i + 1" j "- d"])
      show "loop_body (i, j, ds, cs, ts) =
        (i + 1, j, set_amount ds i (entry_amount (ds ! i) + - d),
         set_amount cs j (entry_amount (cs ! j) - - d), ts @ [mk_tx ds cs i j (- d)])"
        using True by (simp add: body d_def [symmetric] c_def [symmetric])
    qed (rule d)+
  next
    case False
    show ?thesis
    proof (cases "- d = c")
      case True
      then have dc: "d + c = 0" "c - c = 0" by simp_all
      show ?thesis
      proof (rule that [of "i + 1" "j + 1" c])
        show "loop_body (i, j, ds, cs, ts) =
          (i + 1, j + 1, set_amount ds i (entry_amount (ds ! i) + c),
           set_amount cs j (entry_amount (cs ! j) - c), ts @ [mk_tx ds cs i j c])"
          unfolding body d_def [symmetric] c_def [symmetric] dc using True False by simp
      qed (rule c)+
    next
      case neq: False
      show ?thesis
      proof (rule that [of i "j + 1" c])
        show "loop_body (i, j, ds, cs, ts) =
          (i, j + 1, set_amount ds i (entry_amount (ds ! i) + c),
           set_amount cs j (entry_amount (cs ! j) - c), ts @ [mk_tx ds cs i j c])"
          unfolding body d_def [symmetric] c_def [symmetric] using neq False by simp
      qed (rule c)+
    qed
  qed
qed

lemma total_amount_snoc: "total_amount (ts @ [t]) = total_amount ts + tx_amount t"
  by (simp add: total_amount_def)

lemma net_snoc:
  "net (ts @ [t]) p = net ts p + (if tx_from t = p then tx_amount t else 0)
     - (if tx_to t = p then tx_amount t else 0)"
  by (simp add: net_def)

lemma sum_set_amount:
  "i < length xs \<Longrightarrow>
   sum_list (map entry_amount (set_amount xs i v)) =
     sum_list (map entry_amount xs) - entry_amount (xs ! i) + v"
proof (induction xs arbitrary: i)
  case Nil
  then show ?case by simp
next
  case (Cons x xs)
  show ?case
  proof (cases i)
    case 0
    then show ?thesis by (simp add: set_amount_def)
  next
    case (Suc n)
    then have "n < length xs" using Cons.prems by simp
    from Cons.IH [OF this, unfolded set_amount_def] show ?thesis
      by (simp add: Suc set_amount_def)
  qed
qed

lemma sum_inv_step:
  assumes inv: "base_inv s" and cond: "loop_cond s" and I: "sum_inv D C s"
  shows "sum_inv D C (loop_body s)"
proof -
  obtain i j ds cs ts where s: "s = (i, j, ds, cs, ts)" by (cases s)
  have ij: "i < length ds" "j < length cs" using cond by (simp_all add: s loop_cond_def)
  from loop_body_uniform [OF inv [unfolded s] cond [unfolded s]]
  obtain a i' j' where body: "loop_body (i, j, ds, cs, ts) =
       (i', j', set_amount ds i (entry_amount (ds ! i) + a),
        set_amount cs j (entry_amount (cs ! j) - a), ts @ [mk_tx ds cs i j a])" by blast
  have old: "sum_list (map entry_amount ds) = total_amount ts - D"
    "sum_list (map entry_amount cs) = C - total_amount ts"
    using I by (simp_all add: s sum_inv_def)
  show ?thesis
    unfolding s body sum_inv_def
    by (simp add: sum_set_amount [OF ij(1)] sum_set_amount [OF ij(2)] old total_amount_snoc mk_tx_def)
qed

lemma person_nth_eq:
  assumes "distinct (map person xs)" "i < length xs" "k < length xs"
  shows "(person (xs ! i) = person (xs ! k)) = (i = k)"
  using nth_eq_iff_index_eq [of "map person xs" i k] assms by simp

lemma person_nth_neq:
  assumes "set (map person xs) \<inter> set (map person ys) = {}" "i < length xs" "k < length ys"
  shows "person (xs ! i) \<noteq> person (ys ! k)"
proof
  assume eq: "person (xs ! i) = person (ys ! k)"
  have "person (xs ! i) \<in> set (map person xs)" using assms(2) by simp
  moreover have "person (xs ! i) \<in> set (map person ys)" unfolding eq using assms(3) by simp
  ultimately have "person (xs ! i) \<in> set (map person xs) \<inter> set (map person ys)" by (rule IntI)
  then show False unfolding assms(1) by (rule emptyE)
qed

lemma acct_inv_step:
  assumes dist: "distinct (map person ds0 @ map person cs0)"
    and inv: "base_inv s" and cond: "loop_cond s" and I: "acct_inv ds0 cs0 s"
  shows "acct_inv ds0 cs0 (loop_body s)"
proof -
  obtain i j ds cs ts where s: "s = (i, j, ds, cs, ts)" by (cases s)
  from loop_body_uniform [OF inv [unfolded s] cond [unfolded s]]
  obtain a i' j' where body: "loop_body (i, j, ds, cs, ts) =
       (i', j', set_amount ds i (entry_amount (ds ! i) + a),
        set_amount cs j (entry_amount (cs ! j) - a), ts @ [mk_tx ds cs i j a])" by blast
  have mp: "map person ds = map person ds0" "map person cs = map person cs0"
    using I by (simp_all add: s acct_inv_def)
  have len: "length ds = length ds0" "length cs = length cs0"
    using mp by (auto dest: map_eq_imp_length_eq)
  have ij: "i < length ds0" "j < length cs0"
    using cond len by (simp_all add: s loop_cond_def)
  have pi: "person (ds ! i) = person (ds0 ! i)"
    using arg_cong [OF mp(1), of "\<lambda>xs. xs ! i"] ij len by simp
  have pj: "person (cs ! j) = person (cs0 ! j)"
    using arg_cong [OF mp(2), of "\<lambda>xs. xs ! j"] ij len by simp
  have old_t: "\<And>t. t \<in> set ts \<Longrightarrow>
      tx_from t \<in> set (map person ds0) \<and> tx_to t \<in> set (map person cs0)"
    using I unfolding s acct_inv_def prod.case by blast
  have old_d: "\<And>k. k < length ds0 \<Longrightarrow>
      entry_amount (ds ! k) = entry_amount (ds0 ! k) + net ts (person (ds0 ! k))"
    using I unfolding s acct_inv_def prod.case by blast
  have old_c: "\<And>k. k < length cs0 \<Longrightarrow>
      entry_amount (cs ! k) = entry_amount (cs0 ! k) + net ts (person (cs0 ! k))"
    using I unfolding s acct_inv_def prod.case by blast
  have dd: "distinct (map person ds0)" and dc: "distinct (map person cs0)"
    and disj: "set (map person ds0) \<inter> set (map person cs0) = {}"
    and disj': "set (map person cs0) \<inter> set (map person ds0) = {}"
    using dist by auto
  have t: "tx_from (mk_tx ds cs i j a) = person (ds0 ! i)"
    "tx_to (mk_tx ds cs i j a) = person (cs0 ! j)" "tx_amount (mk_tx ds cs i j a) = a"
    by (simp_all add: mk_tx_def pi pj)
  have new_t: "tx_from t \<in> set (map person ds0) \<and> tx_to t \<in> set (map person cs0)"
    if "t \<in> set (ts @ [mk_tx ds cs i j a])" for t
  proof (cases "t \<in> set ts")
    case True
    then show ?thesis by (rule old_t)
  next
    case False
    with that have "t = mk_tx ds cs i j a" by simp
    then show ?thesis using ij by (simp add: t)
  qed
  have new_d: "entry_amount (set_amount ds i (entry_amount (ds ! i) + a) ! k) =
      entry_amount (ds0 ! k) + net (ts @ [mk_tx ds cs i j a]) (person (ds0 ! k))"
    if k: "k < length ds0" for k
  proof -
    have fr: "(person (ds0 ! i) = person (ds0 ! k)) = (i = k)"
      by (rule person_nth_eq [OF dd ij(1) k])
    have tt: "person (cs0 ! j) \<noteq> person (ds0 ! k)"
      by (rule person_nth_neq [OF disj' ij(2) k])
    have 2: "net (ts @ [mk_tx ds cs i j a]) (person (ds0 ! k)) =
      net ts (person (ds0 ! k)) + (if i = k then a else 0)"
      unfolding net_snoc t fr using tt by simp
    show ?thesis using k by (auto simp: amount_set_amount len 2 old_d [OF k] old_d [OF ij(1)])
  qed
  have new_c: "entry_amount (set_amount cs j (entry_amount (cs ! j) - a) ! k) =
      entry_amount (cs0 ! k) + net (ts @ [mk_tx ds cs i j a]) (person (cs0 ! k))"
    if k: "k < length cs0" for k
  proof -
    have tt: "(person (cs0 ! j) = person (cs0 ! k)) = (j = k)"
      by (rule person_nth_eq [OF dc ij(2) k])
    have fr: "person (ds0 ! i) \<noteq> person (cs0 ! k)"
      by (rule person_nth_neq [OF disj ij(1) k])
    have 2: "net (ts @ [mk_tx ds cs i j a]) (person (cs0 ! k)) =
      net ts (person (cs0 ! k)) - (if j = k then a else 0)"
      unfolding net_snoc t tt using fr by simp
    show ?thesis using k by (auto simp: amount_set_amount len 2 old_c [OF k] old_c [OF ij(2)])
  qed
  show ?thesis
    unfolding s body acct_inv_def prod.case
    using new_t new_d new_c by (simp add: map_person_set_amount mp)
qed

lemma sum_list_sort_key:
  fixes f :: "'a \<Rightarrow> rat"
  shows "sum_list (map f (sort_key g xs)) = sum_list (map f xs)"
proof -
  have "sum_mset (mset (map f (sort_key g xs))) = sum_mset (mset (map f xs))" by simp
  then show ?thesis by (simp only: sum_mset_sum_list)
qed

lemma sum_list_negate: "sum_list (map (\<lambda>x. - f x) xs) = - sum_list (map f xs)"
  for f :: "'a \<Rightarrow> rat"
  by (induction xs) simp_all

lemma exit_cases:
  assumes "\<not> loop_cond (i, j, ds, cs, ts)" "base_inv (i, j, ds, cs, ts)"
  shows "i = length ds \<or> j = length cs"
  using assms by (auto simp: loop_cond_def base_inv_def)

lemma debtors_nonpos:
  assumes "base_inv (i, j, ds, cs, ts)" "d \<in> set ds"
  shows "entry_amount d \<le> 0"
proof -
  from assms(2) obtain k where k: "k < length ds" "d = ds ! k" by (auto simp: in_set_conv_nth)
  with assms(1) have "debtor_ok i k (entry_amount d)" by (simp add: base_inv_def)
  then show ?thesis by (auto simp: debtor_ok_def split: if_splits)
qed

lemma creditors_nonneg:
  assumes "base_inv (i, j, ds, cs, ts)" "c \<in> set cs"
  shows "0 \<le> entry_amount c"
proof -
  from assms(2) obtain k where k: "k < length cs" "c = cs ! k" by (auto simp: in_set_conv_nth)
  with assms(1) have "creditor_ok j k (entry_amount c)" by (simp add: base_inv_def)
  then show ?thesis by (auto simp: creditor_ok_def split: if_splits)
qed

lemma debtors_settled:
  assumes "base_inv (length ds, j, ds, cs, ts)" "d \<in> set ds"
  shows "entry_amount d = 0"
proof -
  from assms(2) obtain k where k: "k < length ds" "d = ds ! k" by (auto simp: in_set_conv_nth)
  with assms(1) have "debtor_ok (length ds) k (entry_amount d)" by (simp add: base_inv_def)
  then show ?thesis using k(1) by (simp add: debtor_ok_def)
qed

lemma creditors_settled:
  assumes "base_inv (i, length cs, ds, cs, ts)" "c \<in> set cs"
  shows "entry_amount c = 0"
proof -
  from assms(2) obtain k where k: "k < length cs" "c = cs ! k" by (auto simp: in_set_conv_nth)
  with assms(1) have "creditor_ok (length cs) k (entry_amount c)" by (simp add: base_inv_def)
  then show ?thesis using k(1) by (simp add: creditor_ok_def)
qed

lemma sum_list_all_zero: "(\<And>x. x \<in> set xs \<Longrightarrow> f x = (0::rat)) \<Longrightarrow> sum_list (map f xs) = 0"
  by (induction xs) simp_all

lemma sum_list_all_nonneg: "(\<And>x. x \<in> set xs \<Longrightarrow> (0::rat) \<le> f x) \<Longrightarrow> 0 \<le> sum_list (map f xs)"
  by (induction xs) simp_all

lemma sum_list_all_nonpos: "(\<And>x. x \<in> set xs \<Longrightarrow> f x \<le> (0::rat)) \<Longrightarrow> sum_list (map f xs) \<le> 0"
proof (induction xs)
  case Nil
  show ?case by simp
next
  case (Cons x xs)
  have "f x \<le> 0" "sum_list (map f xs) \<le> 0" using Cons by simp_all
  then show ?case by simp
qed

lemma sum_inv_initial: "sum_inv (rounded_debt bal) (rounded_credit bal) (initial_state bal)"
proof -
  have "\<bar>entry_amount d\<bar> = - entry_amount d" if "d \<in> set (debtors_of bal)" for d
    using debtors_of_entries [OF that] by simp
  then have "map (\<lambda>d. \<bar>entry_amount d\<bar>) (debtors_of bal) = map (\<lambda>d. - entry_amount d) (debtors_of bal)"
    by simp
  then have "rounded_debt bal = - sum_list (map entry_amount (debtors_of bal))"
    unfolding rounded_debt_def by (simp only: sum_list_negate)
  then show ?thesis
    by (simp add: sum_inv_def initial_state_def sort_debtors_def sort_creditors_def
        sum_list_sort_key total_amount_def rounded_credit_def)
qed

lemma settled_total:
  assumes base: "base_inv (i, j, ds, cs, ts)" and stop: "\<not> loop_cond (i, j, ds, cs, ts)"
    and sum: "sum_inv D C (i, j, ds, cs, ts)"
  shows "total_amount ts = min D C"
proof -
  have sd: "sum_list (map entry_amount ds) = total_amount ts - D"
    and sc: "sum_list (map entry_amount cs) = C - total_amount ts"
    using sum by (simp_all add: sum_inv_def)
  have nonpos: "sum_list (map entry_amount ds) \<le> 0"
    by (rule sum_list_all_nonpos) (rule debtors_nonpos [OF base])
  have nonneg: "0 \<le> sum_list (map entry_amount cs)"
    by (rule sum_list_all_nonneg) (rule creditors_nonneg [OF base])
  from exit_cases [OF stop base] show ?thesis
  proof
    assume i: "i = length ds"
    have "sum_list (map entry_amount ds) = 0"
      by (rule sum_list_all_zero) (rule debtors_settled [OF base [unfolded i]])
    then show ?thesis using sd sc nonneg by simp
  next
    assume j: "j = length cs"
    have "sum_list (map entry_amount cs) = 0"
      by (rule sum_list_all_zero) (rule creditors_settled [OF base [unfolded j]])
    then show ?thesis using sd sc nonpos by simp
  qed
qed

lemma round2_small:
  assumes "\<bar>a\<bar> \<le> 1 / 100"
  shows "\<not> round2 a < - (1 / 100)" "\<not> 1 / 100 < round2 a"
proof -
  have lo: "- 1 \<le> a * 100" and hi: "a * 100 \<le> 1" using assms by (simp_all add: abs_le_iff)
  have "\<lfloor>a * 100 + 1 / 2\<rfloor> \<le> 1" using hi by (simp add: floor_le_iff)
  then have 1: "(of_int \<lfloor>a * 100 + 1 / 2\<rfloor> :: rat) \<le> 1" by linarith
  have "- 1 \<le> \<lfloor>a * 100 + 1 / 2\<rfloor>" using lo by (simp add: le_floor_iff)
  then have 2: "- 1 \<le> (of_int \<lfloor>a * 100 + 1 / 2\<rfloor> :: rat)" by linarith
  show "\<not> round2 a < - (1 / 100)" using 2 by (simp add: round2_def math_round_def)
  show "\<not> 1 / 100 < round2 a" using 1 by (simp add: round2_def math_round_def)
qed

lemma balanced_no_entries:
  "all_within (1 / 100) bal \<Longrightarrow> debtors_of bal = [] \<and> creditors_of bal = []"
proof (induction bal)
  case Nil
  show ?case by simp
next
  case (Cons kv bal)
  obtain p v where kv: "kv = (p, v)" by (cases kv)
  from Cons.prems obtain a where v: "v = Some a" and a: "\<bar>a\<bar> \<le> 1 / 100"
    and rest: "all_within (1 / 100) bal"
    by (auto simp: all_within_def kv split: option.splits)
  from Cons.IH [OF rest] round2_small [OF a] show ?case by (simp add: kv v)
qed




section \<open>Persons, payments and rounding\<close>

lemma debtors_of_mem:
  "e \<in> set (debtors_of bal) \<Longrightarrow>
   \<exists>a. (person e, Some a) \<in> set bal \<and> entry_amount e = round2 a \<and> round2 a < - (1 / 100)"
  by (induction bal rule: debtors_of.induct) (auto split: if_splits)

lemma creditors_of_mem:
  "e \<in> set (creditors_of bal) \<Longrightarrow>
   \<exists>a. (person e, Some a) \<in> set bal \<and> entry_amount e = round2 a \<and> 1 / 100 < round2 a"
  by (induction bal rule: creditors_of.induct) (auto split: if_splits)

lemma debtors_of_in:
  "(p, Some a) \<in> set bal \<Longrightarrow> round2 a < - (1 / 100) \<Longrightarrow>
   \<lparr>person = p, entry_amount = round2 a\<rparr> \<in> set (debtors_of bal)"
  by (induction bal rule: debtors_of.induct) auto

lemma creditors_of_in:
  "(p, Some a) \<in> set bal \<Longrightarrow> 1 / 100 < round2 a \<Longrightarrow>
   \<lparr>person = p, entry_amount = round2 a\<rparr> \<in> set (creditors_of bal)"
  by (induction bal rule: creditors_of.induct) auto

lemma debtors_of_keys: "set (map person (debtors_of bal)) \<subseteq> set (obj_keys bal)"
  by (induction bal rule: debtors_of.induct) (auto simp: obj_keys_def)

lemma creditors_of_keys: "set (map person (creditors_of bal)) \<subseteq> set (obj_keys bal)"
  by (induction bal rule: creditors_of.induct) (auto simp: obj_keys_def)

lemma obj_keys_Cons: "obj_keys ((p, v) # bal) = p # obj_keys bal"
  by (simp add: obj_keys_def)

lemma debtors_of_distinct: "distinct (obj_keys bal) \<Longrightarrow> distinct (map person (debtors_of bal))"
proof (induction bal rule: debtors_of.induct)
  case 1
  show ?case by simp
next
  case (2 p bal)
  then show ?case by (simp add: obj_keys_Cons)
next
  case (3 p a bal)
  have "p \<notin> set (map person (debtors_of bal))"
    using debtors_of_keys [of bal] "3.prems" by (auto simp: obj_keys_Cons)
  with 3 show ?case by (simp add: obj_keys_Cons)
qed

lemma creditors_of_distinct: "distinct (obj_keys bal) \<Longrightarrow> distinct (map person (creditors_of bal))"
proof (induction bal rule: creditors_of.induct)
  case 1
  show ?case by simp
next
  case (2 p bal)
  then show ?case by (simp add: obj_keys_Cons)
next
  case (3 p a bal)
  have "p \<notin> set (map person (creditors_of bal))"
    using creditors_of_keys [of bal] "3.prems" by (auto simp: obj_keys_Cons)
  with 3 show ?case by (simp add: obj_keys_Cons)
qed

lemma distinct_keys_value:
  assumes "distinct (obj_keys bal)" "(k, v) \<in> set bal" "(k, v') \<in> set bal"
  shows "v = v'"
proof -
  have d: "distinct (map fst bal)" using assms(1) by (simp add: obj_keys_def)
  from map_of_is_SomeI [OF d assms(2)] map_of_is_SomeI [OF d assms(3)] show ?thesis by simp
qed

lemma obj_get_distinct:
  assumes "distinct (obj_keys bal)" "(k, v) \<in> set bal"
  shows "obj_get bal k = v"
proof -
  have d: "distinct (map fst bal)" using assms(1) by (simp add: obj_keys_def)
  from map_of_is_SomeI [OF d assms(2)] show ?thesis by (simp add: obj_get_def)
qed

lemma debtors_creditors_disjoint:
  assumes "distinct (obj_keys bal)"
  shows "set (map person (debtors_of bal)) \<inter> set (map person (creditors_of bal)) = {}"
proof (rule ccontr)
  assume "set (map person (debtors_of bal)) \<inter> set (map person (creditors_of bal)) \<noteq> {}"
  then obtain d c where dc: "d \<in> set (debtors_of bal)" "c \<in> set (creditors_of bal)"
    "person d = person c" by auto
  from debtors_of_mem [OF dc(1)] obtain a where
    a: "(person d, Some a) \<in> set bal" "round2 a < - (1 / 100)" by blast
  from creditors_of_mem [OF dc(2)] obtain a' where
    a': "(person c, Some a') \<in> set bal" "1 / 100 < round2 a'" by blast
  from distinct_keys_value [OF assms a(1) a'(1) [folded dc(3)]] have "a = a'" by simp
  with a(2) a'(2) show False by simp
qed

lemma sorted_persons:
  "mset (map person (sort_debtors ds)) = mset (map person ds)"
  "mset (map person (sort_creditors cs)) = mset (map person cs)"
  by (simp_all add: sort_debtors_def sort_creditors_def)

lemma sorted_persons_distinct:
  assumes "distinct (obj_keys bal)"
  shows "distinct (map person (sort_debtors (debtors_of bal))
                   @ map person (sort_creditors (creditors_of bal)))"
proof -
  have 1: "distinct (map person (sort_debtors (debtors_of bal)))"
    using mset_eq_imp_distinct_iff [OF sorted_persons(1)] debtors_of_distinct [OF assms] by simp
  have 2: "distinct (map person (sort_creditors (creditors_of bal)))"
    using mset_eq_imp_distinct_iff [OF sorted_persons(2)] creditors_of_distinct [OF assms] by simp
  have 3: "set (map person (sort_debtors (debtors_of bal))) = set (map person (debtors_of bal))"
    using mset_eq_setD [OF sorted_persons(1)] .
  have 4: "set (map person (sort_creditors (creditors_of bal))) = set (map person (creditors_of bal))"
    using mset_eq_setD [OF sorted_persons(2)] .
  show ?thesis
    unfolding distinct_append 3 4 using 1 2 debtors_creditors_disjoint [OF assms] by simp
qed

lemma acct_inv_initial:
  "acct_inv (sort_debtors (debtors_of bal)) (sort_creditors (creditors_of bal)) (initial_state bal)"
  by (simp add: acct_inv_def initial_state_def net_def)


lemma acct_inv_persons:
  assumes "acct_inv ds0 cs0 (i, j, ds, cs, ts)" "t \<in> set ts"
  shows "tx_from t \<in> set (map person ds0)" "tx_to t \<in> set (map person cs0)"
  using assms by (simp_all add: acct_inv_def)

lemma obj_get_pay:
  "obj_get (pay bal t) p =
     js_add (obj_get bal p)
       (Some ((if tx_from t = p then tx_amount t else 0) - (if tx_to t = p then tx_amount t else 0)))"
  by (simp add: pay_def Let_def obj_get_obj_set js_add_def js_sub_def split: option.splits)

lemma settle_up_snoc: "settle_up bal (ts @ [t]) = pay (settle_up bal ts) t"
  by (simp add: settle_up_def)

lemma obj_get_settle_up: "obj_get (settle_up bal ts) p = js_add (obj_get bal p) (Some (net ts p))"
proof (induction ts rule: rev_induct)
  case Nil
  show ?case by (simp add: settle_up_def net_def js_add_zero)
next
  case (snoc t ts)
  show ?case
    unfolding settle_up_snoc obj_get_pay snoc.IH net_snoc
    by (simp add: js_add_def split: option.splits)
qed

lemma obj_keys_obj_set: "k \<in> set (obj_keys bal) \<Longrightarrow> obj_keys (obj_set bal k v) = obj_keys bal"
  by (induction bal k v rule: obj_set.induct) (auto simp: obj_keys_def)

lemma obj_keys_pay:
  assumes "tx_from t \<in> set (obj_keys bal)" "tx_to t \<in> set (obj_keys bal)"
  shows "obj_keys (pay bal t) = obj_keys bal"
  using assms by (simp add: pay_def Let_def obj_keys_obj_set)

lemma obj_keys_settle_up:
  "(\<And>t. t \<in> set ts \<Longrightarrow> tx_from t \<in> set (obj_keys bal) \<and> tx_to t \<in> set (obj_keys bal)) \<Longrightarrow>
   obj_keys (settle_up bal ts) = obj_keys bal"
proof (induction ts rule: rev_induct)
  case Nil
  show ?case by (simp add: settle_up_def)
next
  case (snoc t ts)
  have IH: "obj_keys (settle_up bal ts) = obj_keys bal" using snoc by simp
  have "tx_from t \<in> set (obj_keys bal)" "tx_to t \<in> set (obj_keys bal)"
    using snoc.prems [of t] by simp_all
  then show ?case unfolding settle_up_snoc by (simp add: obj_keys_pay IH)
qed

lemma round2_error: "\<bar>a - round2 a\<bar> \<le> 1 / 200"
proof -
  define n where "n = \<lfloor>a * 100 + 1 / 2\<rfloor>"
  have "of_int n \<le> a * 100 + 1 / 2" "a * 100 + 1 / 2 < of_int n + 1"
    unfolding n_def by linarith+
  then have "\<bar>a * 100 - of_int n\<bar> \<le> 1 / 2" by linarith
  then have "\<bar>a - of_int n / 100\<bar> \<le> 1 / 200" by (simp add: abs_le_iff field_simps)
  then show ?thesis by (simp add: round2_def math_round_def n_def)
qed

lemma round2_small_balance:
  assumes "\<not> round2 a < - (1 / 100)" "\<not> 1 / 100 < round2 a"
  shows "\<bar>a\<bar> \<le> 3 / 200"
  using assms round2_error [of a] by linarith

lemma net_uninvolved:
  "(\<And>t. t \<in> set ts \<Longrightarrow> tx_from t \<noteq> p \<and> tx_to t \<noteq> p) \<Longrightarrow> net ts p = 0"
  unfolding net_def by (induction ts) simp_all

lemma sum_list_nonpos_zero:
  fixes f :: "'a \<Rightarrow> rat"
  assumes "\<And>x. x \<in> set xs \<Longrightarrow> f x \<le> 0" "sum_list (map f xs) = 0" "y \<in> set xs"
  shows "f y = 0"
  using assms
proof (induction xs)
  case Nil
  then show ?case by simp
next
  case (Cons x xs)
  have x: "f x \<le> 0" and rest: "sum_list (map f xs) \<le> 0"
    using Cons.prems(1) by (simp_all add: sum_list_all_nonpos)
  with Cons.prems(2) have z: "f x = 0" "sum_list (map f xs) = 0" by simp_all
  show ?case
  proof (cases "y = x")
    case True
    then show ?thesis using z by simp
  next
    case False
    then have "y \<in> set xs" using Cons.prems(3) by simp
    then show ?thesis using Cons.IH Cons.prems(1) z(2) by simp
  qed
qed

lemma sum_list_nonneg_zero:
  fixes f :: "'a \<Rightarrow> rat"
  assumes "\<And>x. x \<in> set xs \<Longrightarrow> 0 \<le> f x" "sum_list (map f xs) = 0" "y \<in> set xs"
  shows "f y = 0"
proof -
  have "- f y = 0"
  proof (rule sum_list_nonpos_zero [where f = "\<lambda>x. - f x" and xs = xs])
    show "- f x \<le> 0" if "x \<in> set xs" for x using assms(1) [OF that] by simp
    show "sum_list (map (\<lambda>x. - f x) xs) = 0" using assms(2) by (simp add: sum_list_negate)
    show "y \<in> set xs" by (rule assms(3))
  qed
  then show ?thesis by simp
qed

lemma all_settled:
  assumes base: "base_inv (i, j, ds, cs, ts)" and stop: "\<not> loop_cond (i, j, ds, cs, ts)"
    and sum: "sum_inv D D (i, j, ds, cs, ts)"
  shows "\<forall>d \<in> set ds. entry_amount d = 0" and "\<forall>c \<in> set cs. entry_amount c = 0"
proof -
  have total: "total_amount ts = D" using settled_total [OF base stop sum] by simp
  have sd: "sum_list (map entry_amount ds) = 0" and sc: "sum_list (map entry_amount cs) = 0"
    using sum total by (simp_all add: sum_inv_def)
  have "entry_amount d = 0" if "d \<in> set ds" for d
    by (rule sum_list_nonpos_zero [OF debtors_nonpos [OF base] sd that])
  then show "\<forall>d \<in> set ds. entry_amount d = 0" by blast
  have "entry_amount c = 0" if "c \<in> set cs" for c
    by (rule sum_list_nonneg_zero [OF creditors_nonneg [OF base] sc that])
  then show "\<forall>c \<in> set cs. entry_amount c = 0" by blast
qed

lemma acct_inv_net:
  assumes acct: "acct_inv ds0 cs0 (i, j, ds, cs, ts)"
    and zd: "\<forall>d \<in> set ds. entry_amount d = 0"
    and zc: "\<forall>c \<in> set cs. entry_amount c = 0"
  shows "e \<in> set ds0 \<Longrightarrow> net ts (person e) = - entry_amount e"
    and "e \<in> set cs0 \<Longrightarrow> net ts (person e) = - entry_amount e"
proof -
  have mp: "map person ds = map person ds0" "map person cs = map person cs0"
    using acct by (simp_all add: acct_inv_def)
  have len: "length ds = length ds0" "length cs = length cs0"
    using mp by (auto dest: map_eq_imp_length_eq)
  have old_d: "\<And>k. k < length ds0 \<Longrightarrow>
      entry_amount (ds ! k) = entry_amount (ds0 ! k) + net ts (person (ds0 ! k))"
    using acct unfolding acct_inv_def prod.case by blast
  have old_c: "\<And>k. k < length cs0 \<Longrightarrow>
      entry_amount (cs ! k) = entry_amount (cs0 ! k) + net ts (person (cs0 ! k))"
    using acct unfolding acct_inv_def prod.case by blast
  show "net ts (person e) = - entry_amount e" if "e \<in> set ds0"
  proof -
    from that obtain k where k: "k < length ds0" "e = ds0 ! k" by (auto simp: in_set_conv_nth)
    have "ds ! k \<in> set ds" using k(1) len by simp
    then have "entry_amount (ds ! k) = 0" using zd by blast
    with old_d [OF k(1)] show ?thesis by (simp add: k(2))
  qed
  show "net ts (person e) = - entry_amount e" if "e \<in> set cs0"
  proof -
    from that obtain k where k: "k < length cs0" "e = cs0 ! k" by (auto simp: in_set_conv_nth)
    have "cs ! k \<in> set cs" using k(1) len by simp
    then have "entry_amount (cs ! k) = 0" using zc by blast
    with old_c [OF k(1)] show ?thesis by (simp add: k(2))
  qed
qed

lemma sorted_sets:
  "set (sort_debtors ds) = set ds" "set (sort_creditors cs) = set cs"
  by (simp_all add: sort_debtors_def sort_creditors_def)

lemma all_withinI:
  assumes "\<And>k v. (k, v) \<in> set bal \<Longrightarrow> \<exists>b. v = Some b \<and> \<bar>b\<bar> \<le> tol"
  shows "all_within tol bal"
  unfolding all_within_def list_all_iff
proof
  fix kv assume kv: "kv \<in> set bal"
  obtain k v where "kv = (k, v)" by (cases kv)
  with assms [of k v] kv show "case snd kv of None \<Rightarrow> False | Some b \<Rightarrow> \<bar>b\<bar> \<le> tol" by auto
qed

lemma all_numbersD: "all_numbers bal \<Longrightarrow> (k, v) \<in> set bal \<Longrightarrow> \<exists>b. v = Some b"
  by (auto simp: all_numbers_def list_all_iff)

lemma obj_keys_mem: "(k, v) \<in> set bal \<Longrightarrow> k \<in> set (obj_keys bal)"
  unfolding obj_keys_def by (induction bal) auto

text \<open>
  Two facts of the exact model that the claims about the floating-point code rest on: the
  amounts paid add up to the smaller of the two totals of step 1, and when the two totals
  agree, paying the transactions leaves every balance within 0.015 of zero.
\<close>

lemma ideal_settlement_total:
  "\<exists>ts. calculateSettlements bal = Some ts
     \<and> total_amount ts = min (rounded_debt bal) (rounded_credit bal)"
proof -
  from settle_result [of "sum_inv (rounded_debt bal) (rounded_credit bal)" bal,
      OF sum_inv_initial sum_inv_step]
  obtain i j ds cs ts where r: "calculateSettlements bal = Some ts" "base_inv (i, j, ds, cs, ts)"
    "sum_inv (rounded_debt bal) (rounded_credit bal) (i, j, ds, cs, ts)"
    "\<not> loop_cond (i, j, ds, cs, ts)" by blast
  from settled_total [OF r(2) r(4) r(3)] r(1) show ?thesis by simp
qed

lemma ideal_settle_up_clears:
  assumes keys: "distinct (obj_keys bal)" and nums: "all_numbers bal"
    and even: "rounded_debt bal = rounded_credit bal"
  shows "\<exists>ts. calculateSettlements bal = Some ts \<and> all_within (3 / 200) (settle_up bal ts)"
proof -
  let ?ds0 = "sort_debtors (debtors_of bal)" and ?cs0 = "sort_creditors (creditors_of bal)"
  let ?D = "rounded_credit bal"
  let ?I = "\<lambda>s. sum_inv ?D ?D s \<and> acct_inv ?ds0 ?cs0 s"
  note dist = sorted_persons_distinct [OF keys]
  have init: "?I (initial_state bal)"
    using sum_inv_initial [of bal] acct_inv_initial [of bal] by (simp add: even)
  have step: "?I (loop_body s)" if "base_inv s" "loop_cond s" "?I s" for s
    using sum_inv_step [OF that(1,2)] acct_inv_step [OF dist that(1,2)] that(3) by blast
  from settle_result [of ?I bal, OF init step]
  obtain i j ds cs ts where r: "calculateSettlements bal = Some ts" "base_inv (i, j, ds, cs, ts)"
    "sum_inv ?D ?D (i, j, ds, cs, ts)" "acct_inv ?ds0 ?cs0 (i, j, ds, cs, ts)"
    "\<not> loop_cond (i, j, ds, cs, ts)" by blast
  note zero = all_settled [OF r(2) r(5) r(3)]
  note nets = acct_inv_net [OF r(4) zero]
  have tx_keys: "tx_from t \<in> set (obj_keys bal) \<and> tx_to t \<in> set (obj_keys bal)"
    if "t \<in> set ts" for t
  proof -
    from acct_inv_persons [OF r(4) that]
    have "tx_from t \<in> set (map person (debtors_of bal))"
      "tx_to t \<in> set (map person (creditors_of bal))"
      using mset_eq_setD [OF sorted_persons(1)] mset_eq_setD [OF sorted_persons(2)] by blast+
    then show ?thesis using debtors_of_keys [of bal] creditors_of_keys [of bal] by blast
  qed
  have same_keys: "obj_keys (settle_up bal ts) = obj_keys bal"
    by (rule obj_keys_settle_up) (rule tx_keys)
  have bound: "\<bar>b + net ts k\<bar> \<le> 3 / 200" if kb: "(k, Some b) \<in> set bal" for k b
  proof -
    consider (debtor) "round2 b < - (1 / 100)" | (creditor) "1 / 100 < round2 b"
      | (neither) "\<not> round2 b < - (1 / 100)" "\<not> 1 / 100 < round2 b" by blast
    then show ?thesis
    proof cases
      case debtor
      have "\<lparr>person = k, entry_amount = round2 b\<rparr> \<in> set ?ds0"
        unfolding sorted_sets by (rule debtors_of_in [OF kb debtor])
      from nets(1) [OF this] have "net ts k = - round2 b" by simp
      then show ?thesis using round2_error [of b] by simp
    next
      case creditor
      have "\<lparr>person = k, entry_amount = round2 b\<rparr> \<in> set ?cs0"
        unfolding sorted_sets by (rule creditors_of_in [OF kb creditor])
      from nets(2) [OF this] have "net ts k = - round2 b" by simp
      then show ?thesis using round2_error [of b] by simp
    next
      case neither
      have "tx_from t \<noteq> k \<and> tx_to t \<noteq> k" if t: "t \<in> set ts" for t
      proof (intro conjI notI)
        assume "tx_from t = k"
        with acct_inv_persons(1) [OF r(4) t] have "k \<in> set (map person ?ds0)" by simp
        then have "k \<in> set (map person (debtors_of bal))"
          using mset_eq_setD [OF sorted_persons(1)] by blast
        then obtain e where e: "e \<in> set (debtors_of bal)" "person e = k" by auto
        from debtors_of_mem [OF e(1)] obtain a where
          a: "(k, Some a) \<in> set bal" "round2 a < - (1 / 100)" unfolding e(2) by blast
        from distinct_keys_value [OF keys a(1) kb] have "a = b" by simp
        with a(2) neither(1) show False by simp
      next
        assume "tx_to t = k"
        with acct_inv_persons(2) [OF r(4) t] have "k \<in> set (map person ?cs0)" by simp
        then have "k \<in> set (map person (creditors_of bal))"
          using mset_eq_setD [OF sorted_persons(2)] by blast
        then obtain e where e: "e \<in> set (creditors_of bal)" "person e = k" by auto
        from creditors_of_mem [OF e(1)] obtain a where
          a: "(k, Some a) \<in> set bal" "1 / 100 < round2 a" unfolding e(2) by blast
        from distinct_keys_value [OF keys a(1) kb] have "a = b" by simp
        with a(2) neither(2) show False by simp
      qed
      then have "net ts k = 0" by (rule net_uninvolved)
      then show ?thesis using round2_small_balance [OF neither] by simp
    qed
  qed
  have "all_within (3 / 200) (settle_up bal ts)"
  proof (rule all_withinI)
    fix k v assume kv: "(k, v) \<in> set (settle_up bal ts)"
    have "k \<in> set (obj_keys (settle_up bal ts))"
      using kv by (rule obj_keys_mem)
    then have "k \<in> set (obj_keys bal)" by (simp only: same_keys)
    then obtain v0 where v0: "(k, v0) \<in> set bal" by (auto simp: obj_keys_def)
    from all_numbersD [OF nums v0] obtain b where b: "v0 = Some b" ..
    have "obj_get bal k = Some b" using obj_get_distinct [OF keys v0] b by simp
    moreover have "obj_get (settle_up bal ts) k = v"
      by (rule obj_get_distinct [OF _ kv]) (simp add: same_keys keys)
    ultimately have "v = Some (b + net ts k)" by (simp add: obj_get_settle_up js_add_def)
    with bound [OF v0 [unfolded b]] show "\<exists>b. v = Some b \<and> \<bar>b\<bar> \<le> 3 / 200" by simp
  qed
  with r(1) show ?thesis by blast
qed

section \<open>Claims about the settlement\<close>

text \<open>
  C7. If every balance of the input is a number within 0.01 of zero, \<open>calculateSettlements\<close>
  returns the empty list.
\<close>

theorem balanced_no_op:
  assumes "all_within (1 / 100) bal"
  shows "calculateSettlements bal = Some []"
proof -
  from balanced_no_entries [OF assms]
  have "greedy_loop (initial_state bal) = Some (0, 0, [], [], [])"
    by (subst greedy_loop.simps)
      (simp add: initial_state_def loop_cond_def sort_debtors_def sort_creditors_def)
  then show ?thesis by (simp add: calculateSettlements_def)
qed

theorem balanced_no_op_witness:
  "all_within (1 / 100) [(''A'', Some (1 / 100)), (''B'', Some (- (1 / 100))), (''C'', Some 0)]
   \<and> calculateSettlements [(''A'', Some (1 / 100)), (''B'', Some (- (1 / 100))), (''C'', Some 0)]
       = Some []"
proof -
  have h: "all_within (1 / 100)
      [(''A'', Some (1 / 100)), (''B'', Some (- (1 / 100))), (''C'', Some 0)]"
    by (simp add: all_within_def)
  from h balanced_no_op [OF h] show ?thesis by (rule conjI)
qed








lemma pow2_powi: "pow2 k = 2 powi k"
  by (simp add: pow2_def power_int_def inverse_eq_divide power_one_over)

lemma pow2_pos: "0 < pow2 k"
  by (simp add: pow2_powi)

lemma pow2_add: "pow2 (a + b) = pow2 a * pow2 b"
  by (simp add: pow2_powi power_int_add)

lemma pow2_diff: "pow2 (a - b) = pow2 a / pow2 b"
  by (simp add: pow2_powi power_int_diff)

lemma pow2_mono: "a \<le> b \<Longrightarrow> pow2 a \<le> pow2 b"
  by (simp add: pow2_powi power_int_increasing)

lemma pow2_strict_mono: "a < b \<Longrightarrow> pow2 a < pow2 b"
  by (simp add: pow2_powi power_int_strict_increasing)

lemma pow2_le_iff: "pow2 a \<le> pow2 b \<longleftrightarrow> a \<le> b"
  using pow2_mono [of a b] pow2_strict_mono [of b a] by (auto simp: not_le [symmetric])

lemma pow2_less_iff: "pow2 a < pow2 b \<longleftrightarrow> a < b"
  using pow2_mono [of b a] pow2_strict_mono [of a b] by (auto simp: not_less [symmetric])

lemma pow2_nonneg_int: "0 \<le> k \<Longrightarrow> pow2 k = of_int (2 ^ nat k)"
  by (simp add: pow2_def)

lemma pow2_0: "pow2 0 = 1"
  by (simp add: pow2_def)

lemma ilog2_bounds:
  assumes "0 < q"
  shows "pow2 (ilog2 q) \<le> q" and "q < pow2 (ilog2 q + 1)"
proof -
  obtain a b where ab: "quotient_of q = (a, b)" by (cases "quotient_of q")
  have b: "0 < b" using quotient_of_denom_pos [OF ab] .
  have q: "q = of_int a / of_int b" using quotient_of_div [OF ab] .
  have a: "0 < a" using assms b unfolding q by (simp add: zero_less_divide_iff)
  define la where "la = bitlen a"
  define lb where "lb = bitlen b"
  have la1: "1 \<le> la" and lb1: "1 \<le> lb" using a b by (simp_all add: la_def lb_def bitlen_alt_def)
  have A: "(2::int) ^ nat (la - 1) \<le> a" "a < 2 ^ nat la"
    using bitlen_bounds [OF a] by (simp_all add: la_def)
  have B: "(2::int) ^ nat (lb - 1) \<le> b" "b < 2 ^ nat lb"
    using bitlen_bounds [OF b] by (simp_all add: lb_def)
  have Ar: "pow2 (la - 1) \<le> of_int a" "of_int a < pow2 la"
  proof -
    have "(of_int (2 ^ nat (la - 1)) :: rat) \<le> of_int a" using A(1) by (simp only: of_int_le_iff)
    then show "pow2 (la - 1) \<le> of_int a" using la1 by (simp add: pow2_def)
    have "(of_int a :: rat) < of_int (2 ^ nat la)" using A(2) by (simp only: of_int_less_iff)
    then show "of_int a < pow2 la" using la1 by (simp add: pow2_def)
  qed
  have Br: "pow2 (lb - 1) \<le> of_int b" "of_int b < pow2 lb"
  proof -
    have "(of_int (2 ^ nat (lb - 1)) :: rat) \<le> of_int b" using B(1) by (simp only: of_int_le_iff)
    then show "pow2 (lb - 1) \<le> of_int b" using lb1 by (simp add: pow2_def)
    have "(of_int b :: rat) < of_int (2 ^ nat lb)" using B(2) by (simp only: of_int_less_iff)
    then show "of_int b < pow2 lb" using lb1 by (simp add: pow2_def)
  qed
  have bpos: "(0::rat) < of_int b" using b by simp
  have lower: "pow2 (la - lb - 1) < q"
  proof -
    have "pow2 (la - lb - 1) * of_int b < pow2 (la - lb - 1) * pow2 lb"
      using Br(2) pow2_pos [of "la - lb - 1"] by simp
    also have "\<dots> = pow2 (la - 1)" by (simp add: pow2_add [symmetric])
    also have "\<dots> \<le> of_int a" by (rule Ar(1))
    finally show ?thesis using bpos by (simp add: q pos_less_divide_eq)
  qed
  have upper: "q < pow2 (la - lb + 1)"
  proof -
    have "of_int a < pow2 la" by (rule Ar(2))
    also have "\<dots> = pow2 (la - lb + 1) * pow2 (lb - 1)" by (simp add: pow2_add [symmetric])
    also have "\<dots> \<le> pow2 (la - lb + 1) * of_int b"
      using Br(1) pow2_pos [of "la - lb + 1"] by simp
    finally show ?thesis using bpos by (simp add: q pos_divide_less_eq)
  qed
  have il: "ilog2 q = (if pow2 (la - lb) \<le> q then la - lb else la - lb - 1)"
    by (simp add: ilog2_def ab la_def lb_def Let_def)
  show "pow2 (ilog2 q) \<le> q" using lower by (simp add: il)
  show "q < pow2 (ilog2 q + 1)" using upper by (simp add: il not_le)
qed

lemma ilog2_le:
  assumes "0 < q" "q \<le> pow2 k"
  shows "ilog2 q \<le> k"
proof -
  have "pow2 (ilog2 q) \<le> pow2 k" using ilog2_bounds(1) [OF assms(1)] assms(2) by simp
  then show ?thesis by (simp add: pow2_le_iff)
qed

lemma ilog2_less:
  assumes "0 < q" "q < pow2 k"
  shows "ilog2 q < k"
proof -
  have "pow2 (ilog2 q) < pow2 k" using ilog2_bounds(1) [OF assms(1)] assms(2) by simp
  then show ?thesis by (simp add: pow2_less_iff)
qed

lemma round_even_error: "\<bar>of_int (round_even y) - y\<bar> \<le> 1 / 2"
proof -
  have "of_int \<lfloor>y\<rfloor> \<le> y" "y < of_int \<lfloor>y\<rfloor> + 1" by linarith+
  then show ?thesis by (auto simp: round_even_def Let_def)
qed

lemma round_even_of_int: "round_even (of_int n) = n"
  by (simp add: round_even_def)

lemma round_even_le:
  assumes "y \<le> of_int N"
  shows "round_even y \<le> N"
proof -
  have fl: "\<lfloor>y\<rfloor> \<le> N" using assms by (simp add: floor_le_iff)
  have rest: "y < of_int \<lfloor>y\<rfloor> + 1" by linarith
  show ?thesis
  proof (cases "\<lfloor>y\<rfloor> = N")
    case True
    then have "y - of_int \<lfloor>y\<rfloor> \<le> 0" using assms by simp
    then show ?thesis using True by (simp add: round_even_def Let_def)
  next
    case False
    then have "\<lfloor>y\<rfloor> + 1 \<le> N" using fl by simp
    then show ?thesis using fl by (simp add: round_even_def Let_def)
  qed
qed

lemma round_even_ge:
  assumes "of_int N \<le> y"
  shows "N \<le> round_even y"
proof -
  have "N \<le> \<lfloor>y\<rfloor>" using assms by (simp add: le_floor_iff)
  then show ?thesis by (simp add: round_even_def Let_def)
qed

lemma round_even_abs_le:
  assumes "\<bar>y\<bar> \<le> of_int N"
  shows "\<bar>round_even y\<bar> \<le> N"
proof -
  have "y \<le> of_int N" "of_int (- N) \<le> y" using assms by (simp_all add: abs_le_iff)
  from round_even_le [OF this(1)] round_even_ge [OF this(2)] show ?thesis by simp
qed

lemma ulp_exp_le:
  assumes "z \<noteq> 0" "\<bar>z\<bar> \<le> pow2 k" "- 1022 \<le> k"
  shows "ulp_exp z \<le> k - 52"
proof -
  have "ilog2 \<bar>z\<bar> \<le> k" using assms(1,2) by (intro ilog2_le) simp_all
  then show ?thesis using assms(3) by (simp add: ulp_exp_def)
qed

lemma ulp_exp_lt:
  assumes "z \<noteq> 0" "\<bar>z\<bar> < pow2 k" "- 1021 \<le> k"
  shows "ulp_exp z < k - 52"
proof -
  have "ilog2 \<bar>z\<bar> < k" using assms(1,2) by (intro ilog2_less) simp_all
  then show ?thesis using assms(3) by (simp add: ulp_exp_def)
qed

lemma ulp_exp_ge: "- 1074 \<le> ulp_exp z"
  by (simp add: ulp_exp_def)

lemma to_double_value:
  assumes "z \<noteq> 0" "\<bar>z\<bar> \<le> pow2 1023"
  shows "to_double z = Finite (of_int (round_even (z / pow2 (ulp_exp z))) * pow2 (ulp_exp z))"
proof -
  define e where "e = ulp_exp z"
  define m where "m = round_even (z / pow2 e)"
  have e: "e \<le> 971" using ulp_exp_le [OF assms, folded e_def] by simp
  have "\<bar>m\<bar> < 9007199254740992" if "e = 971"
  proof -
    have "\<bar>z / pow2 e\<bar> = \<bar>z\<bar> / pow2 e" using pow2_pos [of e] by simp
    also have "\<dots> \<le> pow2 1023 / pow2 e" using assms(2) pow2_pos [of e] by (simp add: divide_right_mono)
    also have "\<dots> = pow2 52" by (simp add: that pow2_diff [symmetric])
    also have "\<dots> = of_int 4503599627370496" by (simp add: pow2_def)
    finally have "\<bar>m\<bar> \<le> 4503599627370496" unfolding m_def by (rule round_even_abs_le)
    then show ?thesis by simp
  qed
  then have "\<not> (971 < e \<or> (e = 971 \<and> 9007199254740992 \<le> \<bar>m\<bar>))" using e by auto
  then show ?thesis
    using assms(1) by (simp add: to_double_def Let_def e_def [symmetric] m_def [symmetric])
qed

lemma to_double_0: "to_double 0 = Finite 0"
  by (simp add: to_double_def)

lemma to_double_bounded:
  assumes "\<bar>z\<bar> \<le> pow2 k" "- 1022 \<le> k" "k \<le> 1023"
  obtains r where "to_double z = Finite r" "\<bar>r\<bar> \<le> pow2 k"
    "0 \<le> z \<Longrightarrow> 0 \<le> r" "z \<le> 0 \<Longrightarrow> r \<le> 0"
    "\<bar>r - z\<bar> \<le> \<bar>z\<bar> * pow2 (- 53) + pow2 (- 1075)"
proof (cases "z = 0")
  case True
  show ?thesis
    by (rule that [of 0]) (simp_all add: True to_double_0 pow2_pos less_imp_le)
next
  case False
  define e where "e = ulp_exp z"
  define m where "m = round_even (z / pow2 e)"
  have big: "\<bar>z\<bar> \<le> pow2 1023" using assms(1,3) pow2_mono [of k 1023] by simp
  have val: "to_double z = Finite (of_int m * pow2 e)"
    using to_double_value [OF False big] by (simp add: e_def m_def)
  have e: "e \<le> k - 52" using ulp_exp_le [OF False assms(1,2)] by (simp add: e_def)
  have pe: "0 < pow2 e" by (rule pow2_pos)
  have "\<bar>z / pow2 e\<bar> = \<bar>z\<bar> / pow2 e" using pe by simp
  also have "\<dots> \<le> pow2 k / pow2 e" using assms(1) pe by (simp add: divide_right_mono)
  also have "\<dots> = pow2 (k - e)" by (simp add: pow2_diff)
  also have "\<dots> = of_int (2 ^ nat (k - e))" using e by (intro pow2_nonneg_int) simp
  finally have "\<bar>m\<bar> \<le> 2 ^ nat (k - e)" unfolding m_def by (rule round_even_abs_le)
  then have "\<bar>of_int m :: rat\<bar> \<le> of_int (2 ^ nat (k - e))"
    by (simp only: of_int_abs [symmetric] of_int_le_iff)
  also have "\<dots> = pow2 (k - e)" using e by (intro pow2_nonneg_int [symmetric]) simp
  finally have mb: "\<bar>of_int m :: rat\<bar> \<le> pow2 (k - e)" .
  have bound: "\<bar>of_int m * pow2 e\<bar> \<le> pow2 k"
  proof -
    have "\<bar>of_int m * pow2 e\<bar> = \<bar>of_int m\<bar> * pow2 e" using pe by (simp add: abs_mult)
    also have "\<dots> \<le> pow2 (k - e) * pow2 e" using mb pe by (simp add: mult_right_mono)
    also have "\<dots> = pow2 k" by (simp add: pow2_add [symmetric])
    finally show ?thesis .
  qed
  have pos: "0 \<le> of_int m * pow2 e" if "0 \<le> z"
  proof -
    have "of_int 0 \<le> z / pow2 e" using that pe by simp
    then have "0 \<le> m" unfolding m_def by (rule round_even_ge)
    then show ?thesis using pe by simp
  qed
  have neg: "of_int m * pow2 e \<le> 0" if "z \<le> 0"
  proof -
    have "z / pow2 e \<le> of_int 0" using that pe by (simp add: divide_le_0_iff)
    then have "m \<le> 0" unfolding m_def by (rule round_even_le)
    then show ?thesis using pe by (simp add: mult_le_0_iff)
  qed
  have err: "\<bar>of_int m * pow2 e - z\<bar> \<le> \<bar>z\<bar> * pow2 (- 53) + pow2 (- 1075)"
  proof -
    have "of_int m * pow2 e - z = (of_int m - z / pow2 e) * pow2 e"
      using pe by (simp add: left_diff_distrib)
    then have "\<bar>of_int m * pow2 e - z\<bar> = \<bar>of_int m - z / pow2 e\<bar> * \<bar>pow2 e\<bar>"
      by (simp only: abs_mult)
    also have "\<dots> = \<bar>of_int m - z / pow2 e\<bar> * pow2 e" using pe by simp
    also have "\<dots> \<le> 1 / 2 * pow2 e"
      using round_even_error [of "z / pow2 e"] pe unfolding m_def by (intro mult_right_mono) simp_all
    also have "\<dots> = pow2 (e - 1)" by (simp add: pow2_diff) (simp add: pow2_def)
    finally have half: "\<bar>of_int m * pow2 e - z\<bar> \<le> pow2 (e - 1)" .
    show ?thesis
    proof (cases "ilog2 \<bar>z\<bar> - 52 \<le> - 1074")
      case True
      then have "e = - 1074" by (simp add: e_def ulp_exp_def)
      then have "pow2 (e - 1) = pow2 (- 1075)" by simp
      moreover have "0 \<le> \<bar>z\<bar> * pow2 (- 53)" using pow2_pos [of "- 53"] by simp
      ultimately show ?thesis using half by linarith
    next
      case False
      then have "e = ilog2 \<bar>z\<bar> - 52" by (simp add: e_def ulp_exp_def)
      then have "pow2 (e - 1) = pow2 (ilog2 \<bar>z\<bar>) * pow2 (- 53)"
        by (simp add: pow2_add [symmetric])
      also have "\<dots> \<le> \<bar>z\<bar> * pow2 (- 53)"
        using ilog2_bounds(1) [of "\<bar>z\<bar>"] \<open>z \<noteq> 0\<close> pow2_pos [of "- 53"]
        by (intro mult_right_mono) simp_all
      finally have "pow2 (e - 1) \<le> \<bar>z\<bar> * pow2 (- 53)" .
      moreover have "0 < pow2 (- 1075)" by (rule pow2_pos)
      ultimately show ?thesis using half by linarith
    qed
  qed
  show ?thesis by (rule that [OF val bound pos neg err])
qed

lemma to_double_exact:
  assumes x: "x = of_int m * pow2 k" and m: "\<bar>m\<bar> < 9007199254740992" and k: "- 1074 \<le> k"
    and big: "\<bar>x\<bar> \<le> pow2 1023"
  shows "to_double x = Finite x"
proof (cases "x = 0")
  case True
  then show ?thesis by (simp add: to_double_0)
next
  case False
  define e where "e = ulp_exp x"
  have pe: "0 < pow2 e" by (rule pow2_pos)
  have "\<bar>x\<bar> = \<bar>of_int m\<bar> * pow2 k" using pow2_pos [of k] by (simp add: x abs_mult)
  also have "\<dots> < of_int 9007199254740992 * pow2 k"
    using m pow2_pos [of k] by (intro mult_strict_right_mono) (simp_all flip: of_int_abs)
  also have "of_int 9007199254740992 = pow2 53" by (simp add: pow2_def)
  also have "pow2 53 * pow2 k = pow2 (53 + k)" by (simp add: pow2_add)
  finally have "\<bar>x\<bar> < pow2 (53 + k)" .
  then have "ilog2 \<bar>x\<bar> < 53 + k" using False by (intro ilog2_less) simp_all
  then have ek: "e \<le> k" using k by (simp add: e_def ulp_exp_def)
  have "x / pow2 e = of_int m * (pow2 k / pow2 e)" by (simp add: x)
  also have "pow2 k / pow2 e = pow2 (k - e)" by (simp add: pow2_diff)
  also have "\<dots> = of_int (2 ^ nat (k - e))" using ek by (intro pow2_nonneg_int) simp
  finally have "x / pow2 e = of_int (m * 2 ^ nat (k - e))" by simp
  then have "of_int (round_even (x / pow2 e)) * pow2 e = x / pow2 e * pow2 e"
    by (simp only: round_even_of_int)
  also have "\<dots> = x" using pe by simp
  finally show ?thesis using to_double_value [OF False big] by (simp add: e_def)
qed

lemma cent_value: "cent = Finite (5764607523034235 / 576460752303423488)"
  unfolding cent_def by code_simp

lemma cent_pos: "d_less (Finite 0) cent"
  by (simp add: cent_value)

lemma to_double_overflow:
  assumes "pow2 1024 \<le> \<bar>q\<bar>"
  shows "to_double q = (if 0 < q then PosInf else NegInf)"
proof -
  have q: "q \<noteq> 0" "0 < \<bar>q\<bar>" using assms pow2_pos [of 1024] by auto
  have "pow2 1024 < pow2 (ilog2 \<bar>q\<bar> + 1)" using assms ilog2_bounds(2) [OF q(2)] by simp
  then have "1024 \<le> ilog2 \<bar>q\<bar>" by (simp add: pow2_less_iff)
  then have "971 < ulp_exp q" by (simp add: ulp_exp_def)
  then show ?thesis using q(1) by (simp add: to_double_def Let_def)
qed

lemma to_double_finite_bound:
  assumes "to_double z = Finite r"
  shows "\<bar>r\<bar> \<le> pow2 1024"
proof (cases "z = 0")
  case True
  then show ?thesis using assms pow2_pos [of 1024] by (simp add: to_double_0 less_imp_le)
next
  case False
  define e where "e = ulp_exp z"
  define m where "m = round_even (z / pow2 e)"
  have pe: "0 < pow2 e" by (rule pow2_pos)
  have no: "\<not> (971 < e \<or> (e = 971 \<and> 9007199254740992 \<le> \<bar>m\<bar>))" and r: "r = of_int m * pow2 e"
    using assms False by (auto simp: to_double_def Let_def e_def [symmetric] m_def [symmetric] split: if_splits)
  have e: "e \<le> 971" using no by auto
  have "ilog2 \<bar>z\<bar> - 52 \<le> e" by (simp add: e_def ulp_exp_def)
  then have "pow2 (ilog2 \<bar>z\<bar> + 1) \<le> pow2 (53 + e)" by (simp add: pow2_le_iff)
  then have "\<bar>z\<bar> \<le> pow2 (53 + e)" using ilog2_bounds(2) [of "\<bar>z\<bar>"] False by simp
  then have "\<bar>z\<bar> / pow2 e \<le> pow2 (53 + e) / pow2 e" using pe by (simp add: divide_right_mono)
  also have "\<dots> = pow2 53" by (simp add: pow2_diff [symmetric])
  also have "\<dots> = of_int 9007199254740992" by (simp add: pow2_def)
  finally have "\<bar>z / pow2 e\<bar> \<le> of_int 9007199254740992" using pe by simp
  then have "\<bar>m\<bar> \<le> 9007199254740992" unfolding m_def by (rule round_even_abs_le)
  then have "\<bar>of_int m :: rat\<bar> \<le> of_int 9007199254740992"
    by (simp only: of_int_abs [symmetric] of_int_le_iff)
  also have "\<dots> = pow2 53" by (simp add: pow2_def)
  finally have mb: "\<bar>of_int m :: rat\<bar> \<le> pow2 53" .
  have "\<bar>r\<bar> = \<bar>of_int m\<bar> * pow2 e" using pe by (simp add: r abs_mult)
  also have "\<dots> \<le> pow2 53 * pow2 e" using mb pe by (simp add: mult_right_mono)
  also have "\<dots> = pow2 (53 + e)" by (simp add: pow2_add)
  also have "\<dots> \<le> pow2 1024" using e by (simp add: pow2_le_iff)
  finally show ?thesis .
qed

lemma math_round_abs: "\<bar>of_int (math_round y) :: rat\<bar> \<le> \<bar>y\<bar> + 1"
proof -
  have "of_int \<lfloor>y + 1 / 2\<rfloor> \<le> y + 1 / 2" "y + 1 / 2 < of_int \<lfloor>y + 1 / 2\<rfloor> + 1" by linarith+
  then show ?thesis unfolding math_round_def by linarith
qed

lemma pow2_1023_ge_1: "1 \<le> pow2 1023"
  using pow2_mono [of 0 1023] by (simp add: pow2_0)

lemma pow2_1024: "pow2 1024 = 2 * pow2 1023"
  using pow2_add [of 1 1023] by (simp add: pow2_def)

lemma round2_fp_cases:
  "round2_fp a = NaN \<or> round2_fp a = PosInf \<or> round2_fp a = NegInf
   \<or> (\<exists>v. round2_fp a = Finite v \<and> \<bar>v\<bar> \<le> pow2 1023)"
proof (cases a)
  case (Finite x)
  show ?thesis
  proof (cases "to_double (x * 100)")
    case (Finite y)
    define R :: rat where "R = of_int (math_round y)"
    have "\<bar>y\<bar> \<le> pow2 1024" using Finite by (rule to_double_finite_bound)
    then have "\<bar>R\<bar> \<le> 2 * pow2 1023 + 1" using math_round_abs [of y] by (simp add: R_def pow2_1024)
    then have "\<bar>R / 100\<bar> \<le> pow2 1023" using pow2_1023_ge_1 by simp
    from to_double_bounded [OF this] obtain v where "to_double (R / 100) = Finite v" "\<bar>v\<bar> \<le> pow2 1023"
      by auto
    then show ?thesis using Finite \<open>a = Finite x\<close> by (simp add: round2_fp_def hundred_def R_def)
  qed (simp_all add: round2_fp_def hundred_def \<open>a = Finite x\<close>)
qed (simp_all add: round2_fp_def hundred_def)

lemma set_insort_by: "set (insort_by cmp x xs) = insert x (set xs)"
  by (induction xs) auto

lemma set_sort_by: "set (sort_by cmp xs) = set xs"
  unfolding sort_by_def by (induction xs) (simp_all add: set_insort_by)

lemma length_insort_by: "length (insort_by cmp x xs) = Suc (length xs)"
  by (induction xs) auto

lemma length_sort_by: "length (sort_by cmp xs) = length xs"
  unfolding sort_by_def by (induction xs) (simp_all add: length_insort_by)

lemma greedy_loop_fp_rule:
  assumes "I s"
    and "\<And>s. I s \<Longrightarrow> loop_cond_fp s \<Longrightarrow> I (loop_body_fp s) \<and> m (loop_body_fp s) < (m s :: nat)"
  shows "\<exists>s'. greedy_loop_fp s = Some s' \<and> I s' \<and> \<not> loop_cond_fp s'"
  using assms(1)
proof (induction "m s" arbitrary: s rule: less_induct)
  case less
  show ?case
  proof (cases "loop_cond_fp s")
    case True
    from assms(2) [OF less.prems True]
    have "I (loop_body_fp s)" "m (loop_body_fp s) < m s" by simp_all
    from less.hyps [OF this(2) this(1)] show ?thesis
      by (subst greedy_loop_fp.simps) (simp add: True)
  next
    case False
    then show ?thesis using less.prems by (subst greedy_loop_fp.simps) simp
  qed
qed

lemma d_sub_self: "d_sub (Finite y) (Finite y) = Finite 0"
  by (simp add: d_sub_def to_double_0)

lemma step_values:
  assumes d: "deb_ok dv" and c: "cred_ok cv" and fin: "is_finite dv \<or> is_finite cv"
  defines "amt \<equiv> d_min (d_abs dv) cv"
  shows "deb_ok (d_add dv amt)" "cred_ok (d_sub cv amt)"
    "is_finite dv \<Longrightarrow> is_finite (d_add dv amt)" "is_finite cv \<Longrightarrow> is_finite (d_sub cv amt)"
    "d_less (d_abs (d_add dv amt)) cent \<or> d_less (d_sub cv amt) cent"
proof -
  have all: "deb_ok (d_add dv amt) \<and> cred_ok (d_sub cv amt)
    \<and> (is_finite dv \<longrightarrow> is_finite (d_add dv amt)) \<and> (is_finite cv \<longrightarrow> is_finite (d_sub cv amt))
    \<and> (d_less (d_abs (d_add dv amt)) cent \<or> d_less (d_sub cv amt) cent)"
  proof (cases dv)
    case dF: (Finite x)
    then have x: "- pow2 1023 \<le> x" "x \<le> 0" using d by (simp_all add: deb_ok_def)
    show ?thesis
    proof (cases cv)
      case cF: (Finite y)
      then have y: "0 \<le> y" "y \<le> pow2 1023" using c by (simp_all add: cred_ok_def)
      show ?thesis
      proof (cases "y < \<bar>x\<bar>")
        case True
        then have amt: "amt = Finite y" by (simp add: amt_def dF cF d_min_def)
        have "\<bar>x + y\<bar> \<le> pow2 1023" using x y True by simp
        from to_double_bounded [OF this] obtain r where r: "to_double (x + y) = Finite r"
          "\<bar>r\<bar> \<le> pow2 1023" "x + y \<le> 0 \<Longrightarrow> r \<le> 0" by auto
        have "r \<le> 0" using r(3) True x by simp
        then show ?thesis using r(1,2) cent_pos
          by (simp add: amt dF cF d_sub_self deb_ok_def cred_ok_def pow2_pos less_imp_le)
      next
        case False
        then have amt: "amt = Finite \<bar>x\<bar>" by (simp add: amt_def dF cF d_min_def)
        have ax: "\<bar>x\<bar> = - x" using x by simp
        have "\<bar>y - \<bar>x\<bar>\<bar> \<le> pow2 1023" using x y False by simp
        from to_double_bounded [OF this] obtain r where r: "to_double (y - \<bar>x\<bar>) = Finite r"
          "\<bar>r\<bar> \<le> pow2 1023" "0 \<le> y - \<bar>x\<bar> \<Longrightarrow> 0 \<le> r" by auto
        have "0 \<le> r" using r(3) False by simp
        then show ?thesis using r(1,2) cent_pos
          by (simp add: amt dF cF d_sub_def ax to_double_0 deb_ok_def cred_ok_def pow2_pos less_imp_le)
      qed
    next
      case PosInf
      then have amt: "amt = Finite \<bar>x\<bar>" by (simp add: amt_def dF d_min_def)
      have ax: "\<bar>x\<bar> = - x" using x by simp
      show ?thesis using cent_pos
        by (simp add: amt dF PosInf d_sub_def ax to_double_0 deb_ok_def cred_ok_def pow2_pos less_imp_le)
    next
      case NegInf
      then show ?thesis using c by (simp add: cred_ok_def)
    next
      case NaN
      then show ?thesis using c by (simp add: cred_ok_def)
    qed
  next
    case PosInf
    then show ?thesis using d by (simp add: deb_ok_def)
  next
    case dN: NegInf
    then obtain y where cF: "cv = Finite y" using fin by (cases cv) simp_all
    then have y: "0 \<le> y" "y \<le> pow2 1023" using c by (simp_all add: cred_ok_def)
    have amt: "amt = Finite y" by (simp add: amt_def dN cF d_min_def)
    show ?thesis using cent_pos
      by (simp add: amt dN cF d_sub_self deb_ok_def cred_ok_def pow2_pos less_imp_le)
  next
    case NaN
    then show ?thesis using d by (simp add: deb_ok_def)
  qed
  then show "deb_ok (d_add dv amt)" "cred_ok (d_sub cv amt)"
    "is_finite dv \<Longrightarrow> is_finite (d_add dv amt)" "is_finite cv \<Longrightarrow> is_finite (d_sub cv amt)"
    "d_less (d_abs (d_add dv amt)) cent \<or> d_less (d_sub cv amt) cent" by blast+
qed

lemma loop_body_fp_unfold:
  "loop_body_fp (i, j, ds, cs, ts) =
     (let dv = entry_amount_fp (ds ! i); cv = entry_amount_fp (cs ! j);
          amt = d_min (d_abs dv) cv; d' = d_add dv amt; c' = d_sub cv amt
      in (if d_less (d_abs d') cent then i + 1 else i, if d_less c' cent then j + 1 else j,
          ds[i := (ds ! i)\<lparr>entry_amount_fp := d'\<rparr>], cs[j := (cs ! j)\<lparr>entry_amount_fp := c'\<rparr>],
          ts @ [\<lparr>tx_from_fp = person_fp (ds ! i), tx_to_fp = person_fp (cs ! j),
                 tx_amount_fp = d_toFixed2 amt\<rparr>]))"
  by (simp add: loop_body_fp_def Let_def)

lemma in_set_update:
  assumes "x \<in> set (xs[i := y])"
  shows "x = y \<or> x \<in> set xs"
  using assms set_update_subset_insert [of xs i y] by auto

lemma term_inv_step:
  assumes inv: "term_inv s" and cond: "loop_cond_fp s"
  shows "term_inv (loop_body_fp s) \<and> remaining_fp (loop_body_fp s) < remaining_fp s"
proof -
  obtain i j ds cs ts where s: "s = (i, j, ds, cs, ts)" by (cases s)
  have ij: "i < length ds" "j < length cs" using cond by (simp_all add: s loop_cond_fp_def)
  define dv where "dv = entry_amount_fp (ds ! i)"
  define cv where "cv = entry_amount_fp (cs ! j)"
  define amt where "amt = d_min (d_abs dv) cv"
  define d' where "d' = d_add dv amt"
  define c' where "c' = d_sub cv amt"
  have mem: "ds ! i \<in> set ds" "cs ! j \<in> set cs" using ij by simp_all
  have okd: "\<And>d. d \<in> set ds \<Longrightarrow> deb_ok (entry_amount_fp d)"
    and okc: "\<And>c. c \<in> set cs \<Longrightarrow> cred_ok (entry_amount_fp c)"
    and fin: "(\<forall>d \<in> set ds. is_finite (entry_amount_fp d)) \<or> (\<forall>c \<in> set cs. is_finite (entry_amount_fp c))"
    using inv unfolding s term_inv_def prod.case by blast+
  have d: "deb_ok dv" and c: "cred_ok cv" using okd [OF mem(1)] okc [OF mem(2)] by (simp_all add: dv_def cv_def)
  have f: "is_finite dv \<or> is_finite cv" using fin mem by (auto simp: dv_def cv_def)
  note sv = step_values [OF d c f, folded amt_def, folded d'_def c'_def]
  let ?ds = "ds[i := (ds ! i)\<lparr>entry_amount_fp := d'\<rparr>]"
  let ?cs = "cs[j := (cs ! j)\<lparr>entry_amount_fp := c'\<rparr>]"
  obtain i' j' ts' where body: "loop_body_fp s = (i', j', ?ds, ?cs, ts')"
    and i': "i' = (if d_less (d_abs d') cent then i + 1 else i)"
    and j': "j' = (if d_less c' cent then j + 1 else j)"
    by (simp add: s loop_body_fp_unfold Let_def dv_def cv_def amt_def d'_def c'_def)
  have okd': "deb_ok (entry_amount_fp x)" if "x \<in> set ?ds" for x
    using in_set_update [OF that] sv(1) okd by auto
  have okc': "cred_ok (entry_amount_fp x)" if "x \<in> set ?cs" for x
    using in_set_update [OF that] sv(2) okc by auto
  have fin': "(\<forall>d \<in> set ?ds. is_finite (entry_amount_fp d)) \<or> (\<forall>c \<in> set ?cs. is_finite (entry_amount_fp c))"
  proof (rule disjE [OF fin])
    assume a: "\<forall>d \<in> set ds. is_finite (entry_amount_fp d)"
    then have "is_finite dv" using mem(1) by (simp add: dv_def)
    then have "is_finite d'" by (rule sv(3))
    then have "\<forall>d \<in> set ?ds. is_finite (entry_amount_fp d)"
      using a by (auto dest!: in_set_update)
    then show ?thesis ..
  next
    assume a: "\<forall>c \<in> set cs. is_finite (entry_amount_fp c)"
    then have "is_finite cv" using mem(2) by (simp add: cv_def)
    then have "is_finite c'" by (rule sv(4))
    then have "\<forall>c \<in> set ?cs. is_finite (entry_amount_fp c)"
      using a by (auto dest!: in_set_update)
    then show ?thesis ..
  qed
  have le: "i' \<le> length ?ds" "j' \<le> length ?cs" using ij by (simp_all add: i' j')
  have inv': "term_inv (loop_body_fp s)"
    unfolding body term_inv_def prod.case using okd' okc' fin' le by blast
  have "remaining_fp (i', j', ?ds, ?cs, ts') < remaining_fp (i, j, ds, cs, ts)"
    using sv(5) ij by (auto simp: remaining_fp_def i' j')
  then have "remaining_fp (loop_body_fp s) < remaining_fp s" unfolding body unfolding s .
  with inv' show ?thesis ..
qed

lemma debtors_of_fp_entries:
  assumes "d \<in> set (debtors_of_fp bal)"
  shows "deb_ok (entry_amount_fp d)"
  using assms
proof (induction bal)
  case Nil
  then show ?case by simp
next
  case (Cons kv bal)
  obtain p a where kv: "kv = (p, a)" by (cases kv)
  show ?case
  proof (cases "d \<in> set (debtors_of_fp bal)")
    case True
    then show ?thesis by (rule Cons.IH)
  next
    case False
    with Cons.prems have d: "d = \<lparr>person_fp = p, entry_amount_fp = round2_fp a\<rparr>"
      and less: "d_less (round2_fp a) (d_neg cent)"
      by (auto simp: kv split: if_splits)
    from round2_fp_cases [of a] less have "deb_ok (round2_fp a)"
      by (auto simp: cent_value deb_ok_def abs_le_iff)
    then show ?thesis by (simp add: d)
  qed
qed

lemma creditors_of_fp_entries:
  assumes "c \<in> set (creditors_of_fp bal)"
  shows "cred_ok (entry_amount_fp c)"
  using assms
proof (induction bal)
  case Nil
  then show ?case by simp
next
  case (Cons kv bal)
  obtain p a where kv: "kv = (p, a)" by (cases kv)
  show ?case
  proof (cases "c \<in> set (creditors_of_fp bal)")
    case True
    then show ?thesis by (rule Cons.IH)
  next
    case False
    with Cons.prems have c: "c = \<lparr>person_fp = p, entry_amount_fp = round2_fp a\<rparr>"
      and less: "d_less cent (round2_fp a)"
      by (auto simp: kv split: if_splits)
    from round2_fp_cases [of a] less have "cred_ok (round2_fp a)"
      by (auto simp: cent_value cred_ok_def abs_le_iff)
    then show ?thesis by (simp add: c)
  qed
qed

lemma deb_ok_finite: "deb_ok v \<Longrightarrow> v \<noteq> NegInf \<Longrightarrow> is_finite v"
  by (cases v) (simp_all add: deb_ok_def)

lemma cred_ok_finite: "cred_ok v \<Longrightarrow> v \<noteq> PosInf \<Longrightarrow> is_finite v"
  by (cases v) (simp_all add: cred_ok_def)

lemma term_inv_initial:
  assumes "\<not> (infinite_debtor bal \<and> infinite_creditor bal)"
  shows "term_inv (initial_state_fp bal)"
proof -
  have sd: "set (sort_debtors_fp (debtors_of_fp bal)) = set (debtors_of_fp bal)"
    and sc: "set (sort_creditors_fp (creditors_of_fp bal)) = set (creditors_of_fp bal)"
    by (simp_all add: sort_debtors_fp_def sort_creditors_fp_def set_sort_by)
  have "(\<forall>d \<in> set (debtors_of_fp bal). is_finite (entry_amount_fp d))
      \<or> (\<forall>c \<in> set (creditors_of_fp bal). is_finite (entry_amount_fp c))"
  proof (cases "infinite_debtor bal")
    case True
    then have "\<not> infinite_creditor bal" using assms by simp
    then have "\<forall>c \<in> set (creditors_of_fp bal). entry_amount_fp c \<noteq> PosInf"
      by (simp add: infinite_creditor_def list_ex_iff)
    then have "\<forall>c \<in> set (creditors_of_fp bal). is_finite (entry_amount_fp c)"
      using creditors_of_fp_entries cred_ok_finite by blast
    then show ?thesis ..
  next
    case False
    then have "\<forall>d \<in> set (debtors_of_fp bal). entry_amount_fp d \<noteq> NegInf"
      by (simp add: infinite_debtor_def list_ex_iff)
    then have "\<forall>d \<in> set (debtors_of_fp bal). is_finite (entry_amount_fp d)"
      using debtors_of_fp_entries deb_ok_finite by blast
    then show ?thesis ..
  qed
  then show ?thesis
    unfolding term_inv_def initial_state_fp_def prod.case sd sc
    using debtors_of_fp_entries creditors_of_fp_entries by simp
qed

section \<open>Termination of the loop on doubles\<close>

text \<open>
  C6, as amended. For every balance object in which not both some balance rounds to
  \<open>-Infinity\<close> and some balance rounds to \<open>Infinity\<close> (the product \<open>amount * 100\<close> overflows
  in at most one direction), the greedy matching loop terminates: it reaches a state in
  which one of the two cursors is at the end of its list, and \<open>calculateSettlements\<close> returns
  the transactions of that state.
\<close>

theorem settlement_terminates_fp:
  assumes "\<not> (infinite_debtor bal \<and> infinite_creditor bal)"
  shows "\<exists>i j debtors creditors transactions.
     greedy_loop_fp (initial_state_fp bal) = Some (i, j, debtors, creditors, transactions)
     \<and> (i = length debtors \<or> j = length creditors)
     \<and> calculateSettlements_fp bal = Some transactions"
proof -
  from greedy_loop_fp_rule [of term_inv "initial_state_fp bal" remaining_fp,
      OF term_inv_initial [OF assms] term_inv_step]
  obtain s where s: "greedy_loop_fp (initial_state_fp bal) = Some s" "\<not> loop_cond_fp s"
    "term_inv s" by blast
  obtain i j ds cs ts where t: "s = (i, j, ds, cs, ts)" by (cases s)
  have "calculateSettlements_fp bal = Some ts"
    by (simp add: calculateSettlements_fp_def s(1) t)
  moreover have "i = length ds \<or> j = length cs"
    using s(2,3) unfolding t by (auto simp: loop_cond_fp_def term_inv_def)
  ultimately show ?thesis using s(1) t by blast
qed

theorem settlement_terminates_fp_witness:
  "\<not> (infinite_debtor [(''A'', PosInf), (''B'', Finite (- 10)), (''C'', NaN)]
        \<and> infinite_creditor [(''A'', PosInf), (''B'', Finite (- 10)), (''C'', NaN)])
   \<and> (\<exists>i j debtors creditors transactions.
     greedy_loop_fp (initial_state_fp [(''A'', PosInf), (''B'', Finite (- 10)), (''C'', NaN)])
       = Some (i, j, debtors, creditors, transactions)
     \<and> (i = length debtors \<or> j = length creditors)
     \<and> calculateSettlements_fp [(''A'', PosInf), (''B'', Finite (- 10)), (''C'', NaN)]
       = Some transactions)"
proof -
  have h: "\<not> (infinite_debtor [(''A'', PosInf), (''B'', Finite (- 10)), (''C'', NaN)]
        \<and> infinite_creditor [(''A'', PosInf), (''B'', Finite (- 10)), (''C'', NaN)])"
    by code_simp
  from h settlement_terminates_fp [OF h] show ?thesis by (rule conjI)
qed

lemma stuck_step:
  assumes "stuck s"
  shows "stuck (loop_body_fp s)"
proof -
  obtain i j ds cs ts where s: "s = (i, j, ds, cs, ts)" by (cases s)
  from assms have ij: "i < length ds" "j < length cs" by (simp_all add: s stuck_def)
  from assms consider
    (inf) "entry_amount_fp (ds ! i) = NegInf" "entry_amount_fp (cs ! j) = PosInf"
    | (nan) "entry_amount_fp (ds ! i) = NaN" "entry_amount_fp (cs ! j) = NaN"
    by (auto simp: s stuck_def)
  then show ?thesis
  proof cases
    case inf
    then show ?thesis using ij
      by (simp add: s loop_body_fp_unfold Let_def stuck_def d_min_def d_sub_def cent_value)
  next
    case nan
    then show ?thesis using ij
      by (simp add: s loop_body_fp_unfold Let_def stuck_def d_min_def d_sub_def cent_value)
  qed
qed

lemma stuck_cond: "stuck s \<Longrightarrow> loop_cond_fp s"
  by (cases s) (simp add: stuck_def loop_cond_fp_def)

lemma stuck_never_returns:
  assumes "stuck s"
  shows "greedy_loop_fp s = None"
proof (rule ccontr)
  assume "greedy_loop_fp s \<noteq> None"
  then obtain y where y: "greedy_loop_fp s = Some y" by auto
  have step: "\<not> stuck x"
    if IH: "\<And>x y. f x = Some y \<Longrightarrow> \<not> stuck x"
      and eq: "(if loop_cond_fp x then f (loop_body_fp x) else Some x) = Some y"
    for f :: "loop_state_fp \<Rightarrow> loop_state_fp option" and x y
  proof
    assume st: "stuck x"
    then have "f (loop_body_fp x) = Some y" using eq stuck_cond [OF st] by simp
    then have "\<not> stuck (loop_body_fp x)" by (rule IH)
    then show False using stuck_step [OF st] by simp
  qed
  have "\<not> stuck s"
    by (rule greedy_loop_fp.raw_induct [where P = "\<lambda>x y. \<not> stuck x", OF _ y]) (rule step)
  then show False using assms by simp
qed

lemma round2_fp_huge:
  assumes "pow2 1020 \<le> x"
  shows "round2_fp (Finite x) = PosInf" "round2_fp (Finite (- x)) = NegInf"
proof -
  have "pow2 1024 = pow2 1020 * 16" using pow2_add [of 1020 4] by (simp add: pow2_def)
  also have "\<dots> \<le> x * 100" using assms pow2_pos [of 1020] by simp
  finally have big: "pow2 1024 \<le> \<bar>x * 100\<bar>" "pow2 1024 \<le> \<bar>- x * 100\<bar>" by simp_all
  have x: "0 < x" using assms pow2_pos [of 1020] by simp
  show "round2_fp (Finite x) = PosInf"
    using to_double_overflow [OF big(1)] x by (simp add: round2_fp_def hundred_def)
  show "round2_fp (Finite (- x)) = NegInf"
    using to_double_overflow [OF big(2)] x by (simp add: round2_fp_def hundred_def)
qed

lemma pow2_1020: "pow2 1020 = 2 ^ 1020"
  by (simp add: pow2_def)

text \<open>
  C6 as stated fails on the balance object \<open>{A: 2^1020, B: -2^1020}\<close>: both products
  \<open>amount * 100\<close> overflow, the two entries hold \<open>-Infinity\<close> and \<open>Infinity\<close>, the first
  iteration turns both into \<open>NaN\<close> (\<open>-Infinity + Infinity\<close>), every comparison with \<open>NaN\<close> is
  false, and neither cursor ever moves: the loop does not return.
\<close>

theorem settlement_terminates_fp_counterexample:
  "calculateSettlements_fp [(''A'', Finite (2 ^ 1020)), (''B'', Finite (- (2 ^ 1020)))] = None"
proof -
  have r: "round2_fp (Finite (2 ^ 1020)) = PosInf" "round2_fp (Finite (- (2 ^ 1020))) = NegInf"
    using round2_fp_huge [of "2 ^ 1020"] by (simp_all only: pow2_1020 order_refl)
  have "initial_state_fp [(''A'', Finite (2 ^ 1020)), (''B'', Finite (- (2 ^ 1020)))]
    = (0, 0, [\<lparr>person_fp = ''B'', entry_amount_fp = NegInf\<rparr>],
        [\<lparr>person_fp = ''A'', entry_amount_fp = PosInf\<rparr>], [])"
    by (simp add: initial_state_fp_def r cent_value sort_debtors_fp_def sort_creditors_fp_def
        sort_by_def del: power_numeral)
  moreover have "stuck (0, 0, [\<lparr>person_fp = ''B'', entry_amount_fp = NegInf\<rparr>],
        [\<lparr>person_fp = ''A'', entry_amount_fp = PosInf\<rparr>], [])"
    by (simp add: stuck_def)
  ultimately have "greedy_loop_fp (initial_state_fp
      [(''A'', Finite (2 ^ 1020)), (''B'', Finite (- (2 ^ 1020)))]) = None"
    by (simp only: stuck_never_returns)
  then show ?thesis by (simp only: calculateSettlements_fp_def option.map)
qed

lemma obj_get_fp_obj_set_fp:
  "obj_get_fp (obj_set_fp bal k v) k' = (if k' = k then v else obj_get_fp bal k')"
  by (induction bal) (auto simp: obj_get_fp_def)

lemma debit_all_fp_Nil: "debit_all_fp share bal [] = bal"
  by (simp add: debit_all_fp_def)

lemma debit_all_fp_Cons:
  "debit_all_fp share bal (m # ms) =
     debit_all_fp share (obj_set_fp bal m (d_sub (obj_get_fp bal m) share)) ms"
  by (simp add: debit_all_fp_def)

lemma obj_get_fp_debit_all_fp:
  "distinct members \<Longrightarrow>
   obj_get_fp (debit_all_fp share bal members) p =
     (if p \<in> set members then d_sub (obj_get_fp bal p) share else obj_get_fp bal p)"
  by (induction members arbitrary: bal)
    (auto simp: debit_all_fp_Nil debit_all_fp_Cons obj_get_fp_obj_set_fp)

lemma add_expense_fp_unfold:
  "involved_fp e = Some members \<Longrightarrow> members \<noteq> [] \<Longrightarrow>
   add_expense_fp bal e =
     debit_all_fp (d_div (amount_fp e) (Finite (of_nat (length members))))
       (obj_set_fp bal (payer_fp e) (d_add (obj_get_fp bal (payer_fp e)) (amount_fp e))) members"
  by (simp add: add_expense_fp_def)

lemma balances_fp_snoc: "balances_fp ps (es @ [e]) = add_expense_fp (balances_fp ps es) e"
  by (simp add: balances_fp_def)

section \<open>Claims about the balance computation on doubles\<close>

text \<open>
  C3, as amended. An expense of amount A whose involved members are k distinct participants
  (k > 0) changes the balance of every participant p as follows: if p is the payer, A is
  added, and the sum is rounded to the nearest double; after that, if p is involved, the share
  (the double nearest to A / k) is subtracted, and the difference is rounded to the nearest
  double. A participant who is neither keeps the balance.
\<close>

theorem share_conservation_fp:
  assumes "involved_fp e = Some members" "members \<noteq> []" "distinct members"
  shows "obj_get_fp (balances_fp participants (expenses @ [e])) p =
     (let old = obj_get_fp (balances_fp participants expenses) p;
          share = d_div (amount_fp e) (Finite (of_nat (length members)));
          credited = (if p = payer_fp e then d_add old (amount_fp e) else old)
      in if p \<in> set members then d_sub credited share else credited)"
  unfolding balances_fp_snoc add_expense_fp_unfold [OF assms(1,2)]
  by (simp add: obj_get_fp_debit_all_fp [OF assms(3)] obj_get_fp_obj_set_fp Let_def)

theorem share_conservation_fp_witness:
  "involved_fp \<lparr>amount_fp = Finite 30, payer_fp = ''A'', involved_fp = Some [''A'', ''B'', ''C'']\<rparr>
     = Some [''A'', ''B'', ''C'']
   \<and> [''A'', ''B'', ''C''] \<noteq> [] \<and> distinct [''A'', ''B'', ''C'']
   \<and> obj_get_fp (balances_fp [''A'', ''B'', ''C'']
        ([] @ [\<lparr>amount_fp = Finite 30, payer_fp = ''A'', involved_fp = Some [''A'', ''B'', ''C'']\<rparr>])) ''A''
       = Finite 20"
proof -
  let ?e = "\<lparr>amount_fp = Finite 30, payer_fp = ''A'', involved_fp = Some [''A'', ''B'', ''C'']\<rparr>"
  have h1: "involved_fp ?e = Some [''A'', ''B'', ''C'']" by simp
  have h2: "[''A'', ''B'', ''C''] \<noteq> []" by simp
  have h3: "distinct [''A'', ''B'', ''C'']" by simp
  have start: "obj_get_fp (balances_fp [''A'', ''B'', ''C''] []) ''A'' = Finite 0"
    by code_simp
  have v: "d_sub (d_add (Finite 0) (Finite 30)) (d_div (Finite 30) (Finite 3)) = Finite 20"
    by code_simp
  have "obj_get_fp (balances_fp [''A'', ''B'', ''C''] ([] @ [?e])) ''A'' = Finite 20"
    unfolding share_conservation_fp [OF h1 h2 h3] start using v by (simp add: Let_def)
  with h1 h2 h3 show ?thesis by blast
qed

text \<open>
  C3 as stated fails, because the share and both updates are rounded. After the single
  expense of 10 paid by A for A, B and C the balance of B is not \<open>-10/3\<close> but the double
  \<open>-3.3333333333333335\<close>; and when A, whose balance is \<open>10^16\<close>, pays a further expense of 1
  for B, the balance of A stays \<open>10^16\<close>.
\<close>

theorem share_conservation_fp_counterexample:
  "obj_get_fp (balances_fp [''A'', ''B'', ''C'']
      [\<lparr>amount_fp = Finite 10, payer_fp = ''A'', involved_fp = Some [''A'', ''B'', ''C'']\<rparr>]) ''B''
     = Finite (- (7505999378950827 / 2251799813685248))
   \<and> - (7505999378950827 / 2251799813685248) \<noteq> (0 - 10 / 3 :: rat)
   \<and> obj_get_fp (balances_fp [''A'', ''B'']
      [\<lparr>amount_fp = Finite 10000000000000000, payer_fp = ''A'', involved_fp = Some [''B'']\<rparr>]) ''A''
     = Finite 10000000000000000
   \<and> obj_get_fp (balances_fp [''A'', ''B'']
      [\<lparr>amount_fp = Finite 10000000000000000, payer_fp = ''A'', involved_fp = Some [''B'']\<rparr>,
       \<lparr>amount_fp = Finite 1, payer_fp = ''A'', involved_fp = Some [''B'']\<rparr>]) ''A''
     = Finite 10000000000000000"
  by code_simp

section \<open>The rounding error of the balance computation\<close>

lemma err_nonneg: "0 \<le> L \<Longrightarrow> 0 \<le> err L"
  using pow2_pos [of "- 53"] pow2_pos [of "- 1075"] by (simp add: err_def less_imp_le)

lemma eta_le_err: "0 \<le> L \<Longrightarrow> pow2 (- 1075) \<le> err L"
  using pow2_pos [of "- 53"] by (simp add: err_def less_imp_le)

lemma to_double_err:
  assumes "\<bar>z\<bar> \<le> L" "L \<le> pow2 1023"
  obtains r where "to_double z = Finite r" "\<bar>r - z\<bar> \<le> err L"
    "\<bar>r - z\<bar> \<le> \<bar>z\<bar> * pow2 (- 53) + pow2 (- 1075)"
proof -
  have "\<bar>z\<bar> \<le> pow2 1023" using assms by simp
  from to_double_bounded [OF this] obtain r where r: "to_double z = Finite r"
    "\<bar>r - z\<bar> \<le> \<bar>z\<bar> * pow2 (- 53) + pow2 (- 1075)" by auto
  have "\<bar>z\<bar> * pow2 (- 53) \<le> L * pow2 (- 53)"
    using assms(1) pow2_pos [of "- 53"] by (simp add: mult_right_mono less_imp_le)
  with r(2) have e: "\<bar>r - z\<bar> \<le> err L" by (simp add: err_def)
  show ?thesis by (rule that [OF r(1) e r(2)])
qed

lemma map_of_finite:
  "all_finite bal \<Longrightarrow> k \<in> set (map fst bal) \<Longrightarrow> \<exists>b. map_of bal k = Some (Finite b)"
proof (induction bal)
  case Nil
  then show ?case by simp
next
  case (Cons kv bal)
  obtain k' v where kv: "kv = (k', v)" by (cases kv)
  show ?case
  proof (cases "k' = k")
    case True
    with Cons.prems(1) kv show ?thesis by (cases v) (simp_all add: all_finite_def)
  next
    case False
    with Cons kv show ?thesis by (simp add: all_finite_def)
  qed
qed

lemma l1_norm_nonneg: "0 \<le> l1_norm bal"
  unfolding l1_norm_def by (rule sum_list_nonneg) auto

lemma obj_set_fp_present:
  "map_of bal k = Some (Finite b) \<Longrightarrow>
   exact_sum (obj_set_fp bal k (Finite r)) = exact_sum bal - b + r
   \<and> l1_norm (obj_set_fp bal k (Finite r)) = l1_norm bal - \<bar>b\<bar> + \<bar>r\<bar>
   \<and> map fst (obj_set_fp bal k (Finite r)) = map fst bal
   \<and> (all_finite bal \<longrightarrow> all_finite (obj_set_fp bal k (Finite r)))
   \<and> \<bar>b\<bar> \<le> l1_norm bal"
proof (induction bal)
  case Nil
  then show ?case by simp
next
  case (Cons kv bal)
  obtain k' v where kv: "kv = (k', v)" by (cases kv)
  show ?case
  proof (cases "k' = k")
    case True
    with Cons.prems have v: "v = Finite b" by (simp add: kv)
    show ?thesis using l1_norm_nonneg [of bal]
      by (simp add: kv True v exact_sum_def l1_norm_def all_finite_def)
  next
    case False
    with Cons.prems have "map_of bal k = Some (Finite b)" by (simp add: kv)
    from Cons.IH [OF this] have "\<bar>b\<bar> \<le> \<bar>value_of v\<bar> + l1_norm bal" by linarith
    with Cons.IH [OF \<open>map_of bal k = Some (Finite b)\<close>] show ?thesis
      by (simp add: kv False exact_sum_def l1_norm_def all_finite_def)
  qed
qed

lemma one_update:
  assumes fin: "all_finite bal" and key: "k \<in> set (map fst bal)"
    and small: "l1_norm bal + \<bar>x\<bar> \<le> L" and L: "L \<le> pow2 1023"
  defines "bal' \<equiv> obj_set_fp bal k (d_add (obj_get_fp bal k) (Finite x))"
  shows "all_finite bal' \<and> map fst bal' = map fst bal
    \<and> \<bar>exact_sum bal' - (exact_sum bal + x)\<bar> \<le> err L
    \<and> l1_norm bal' \<le> l1_norm bal + \<bar>x\<bar> + err L"
proof -
  from map_of_finite [OF fin key] obtain b where b: "map_of bal k = Some (Finite b)" by blast
  then have get: "obj_get_fp bal k = Finite b" by (simp add: obj_get_fp_def)
  have "\<bar>b\<bar> \<le> l1_norm bal" using obj_set_fp_present [OF b] by simp
  then have "\<bar>b + x\<bar> \<le> L" using small by linarith
  from to_double_err [OF this L] obtain r where r: "to_double (b + x) = Finite r"
    "\<bar>r - (b + x)\<bar> \<le> err L" by blast
  have bal': "bal' = obj_set_fp bal k (Finite r)" by (simp add: bal'_def get r(1))
  note p = obj_set_fp_present [OF b, of r, folded bal']
  have "exact_sum bal' - (exact_sum bal + x) = r - (b + x)" using p by simp
  moreover have "l1_norm bal' \<le> l1_norm bal + \<bar>x\<bar> + err L" using p r(2) by linarith
  ultimately show ?thesis using p fin r(2) by simp
qed

lemma debit_all_error:
  assumes L: "L \<le> pow2 1023" "0 \<le> L"
  shows "all_finite bal \<Longrightarrow> set members \<subseteq> set (map fst bal) \<Longrightarrow>
    l1_norm bal + of_nat (length members) * (\<bar>s\<bar> + err L) \<le> L \<Longrightarrow>
    all_finite (debit_all_fp (Finite s) bal members)
    \<and> map fst (debit_all_fp (Finite s) bal members) = map fst bal
    \<and> \<bar>exact_sum (debit_all_fp (Finite s) bal members)
         - (exact_sum bal - of_nat (length members) * s)\<bar> \<le> of_nat (length members) * err L
    \<and> l1_norm (debit_all_fp (Finite s) bal members)
         \<le> l1_norm bal + of_nat (length members) * (\<bar>s\<bar> + err L)"
proof (induction members arbitrary: bal)
  case Nil
  then show ?case by (simp add: debit_all_fp_Nil)
next
  case (Cons m ms)
  define bal1 where "bal1 = obj_set_fp bal m (d_add (obj_get_fp bal m) (Finite (- s)))"
  have e0: "0 \<le> err L" using L(2) by (rule err_nonneg)
  have step: "debit_all_fp (Finite s) bal (m # ms) = debit_all_fp (Finite s) bal1 ms"
    by (simp add: debit_all_fp_Cons bal1_def d_sub_def)
  have n0: "0 \<le> of_nat (length ms) * (\<bar>s\<bar> + err L)"
    by (rule mult_nonneg_nonneg) (use e0 in simp_all)
  have budget: "l1_norm bal + (\<bar>s\<bar> + err L) + of_nat (length ms) * (\<bar>s\<bar> + err L) \<le> L"
    using Cons.prems(3) by (simp add: algebra_simps)
  then have "l1_norm bal + \<bar>s\<bar> \<le> L" using n0 e0 by linarith
  then have small: "l1_norm bal + \<bar>- s\<bar> \<le> L" by simp
  have key: "m \<in> set (map fst bal)" using Cons.prems(2) by simp
  note u = one_update [OF Cons.prems(1) key small L(1), folded bal1_def]
  have keys1: "set ms \<subseteq> set (map fst bal1)" using Cons.prems(2) u by simp
  have small1: "l1_norm bal1 + of_nat (length ms) * (\<bar>s\<bar> + err L) \<le> L"
    using u budget by simp
  from u have fin1: "all_finite bal1" by simp
  note r = Cons.IH [OF fin1 keys1 small1]
  let ?b = "debit_all_fp (Finite s) bal1 ms"
  have a: "\<bar>exact_sum ?b - (exact_sum bal1 - of_nat (length ms) * s)\<bar> \<le> of_nat (length ms) * err L"
    using r by simp
  have b: "\<bar>exact_sum bal1 - (exact_sum bal + - s)\<bar> \<le> err L" using u by simp
  have "\<bar>exact_sum ?b - (exact_sum bal - (of_nat (length ms) * s + s))\<bar>
      \<le> of_nat (length ms) * err L + err L"
    using a b by linarith
  moreover have "l1_norm ?b \<le> l1_norm bal + (\<bar>s\<bar> + err L) + of_nat (length ms) * (\<bar>s\<bar> + err L)"
    using r u by simp
  ultimately show ?case using r u unfolding step by (simp add: algebra_simps)
qed

lemma share_error:
  assumes L: "L \<le> pow2 1023" "0 \<le> L" and A: "\<bar>A\<bar> \<le> L" and k: "0 < k"
  obtains s where "d_div (Finite A) (Finite (of_nat k)) = Finite s"
    "\<bar>of_nat k * s - A\<bar> \<le> (of_nat k + 1) * err L"
proof -
  define K :: rat where "K = of_nat k"
  have K: "1 \<le> K" using k by (simp add: K_def)
  define u where "u = pow2 (- 53)"
  define h where "h = pow2 (- 1075)"
  have u: "0 \<le> u" and h: "0 \<le> h" using pow2_pos by (simp_all add: u_def h_def less_imp_le)
  have E: "err L = L * u + h" by (simp add: err_def u_def h_def)
  have "\<bar>A / K\<bar> = \<bar>A\<bar> / K" using K by simp
  also have "\<dots> \<le> \<bar>A\<bar>" using K by (simp add: divide_le_eq mult_le_cancel_left1)
  finally have "\<bar>A / K\<bar> \<le> L" using A by simp
  from to_double_err [OF this L(1)] obtain s where s: "to_double (A / K) = Finite s"
    "\<bar>s - A / K\<bar> \<le> \<bar>A / K\<bar> * u + h" unfolding u_def h_def by blast
  have d: "d_div (Finite A) (Finite (of_nat k)) = Finite s"
    using s(1) K by (simp add: K_def)
  have "K * s - A = K * (s - A / K)" using K by (simp add: algebra_simps)
  then have "\<bar>K * s - A\<bar> = K * \<bar>s - A / K\<bar>" using K by (simp add: abs_mult)
  also have "\<dots> \<le> K * (\<bar>A / K\<bar> * u + h)" using s(2) K by (simp add: mult_left_mono)
  also have "\<dots> = \<bar>A\<bar> * u + K * h" using K by (simp add: algebra_simps)
  also have "\<dots> \<le> L * u + K * h" using A u by (simp add: mult_right_mono)
  also have "\<dots> \<le> (L * u + h) + K * (L * u + h)"
  proof -
    have "0 \<le> K * (L * u)" using K L(2) u by simp
    moreover have "K * (L * u + h) = K * (L * u) + K * h" by (simp add: algebra_simps)
    ultimately show ?thesis using h by linarith
  qed
  also have "\<dots> = (K + 1) * err L" by (simp add: E algebra_simps)
  finally have "\<bar>of_nat k * s - A\<bar> \<le> (of_nat k + 1) * err L" by (simp add: K_def)
  with d show ?thesis by (rule that)
qed

lemma add_expense_skip:
  "updates_of e = 0 \<Longrightarrow> add_expense_fp bal e = bal"
  by (auto simp: updates_of_def add_expense_fp_def split: option.splits if_splits)

lemma add_expense_error:
  assumes L: "L \<le> pow2 1023" "0 \<le> L"
    and fin: "all_finite bal" and ros: "from_roster_fp ps e"
    and keys: "set (map fst bal) = set ps" and amt: "amount_fp e = Finite A"
    and small: "l1_norm bal + 2 * \<bar>A\<bar> + 2 * of_nat (updates_of e) * err L \<le> L"
  shows "all_finite (add_expense_fp bal e) \<and> map fst (add_expense_fp bal e) = map fst bal
    \<and> \<bar>exact_sum (add_expense_fp bal e) - exact_sum bal\<bar> \<le> 2 * of_nat (updates_of e) * err L
    \<and> l1_norm (add_expense_fp bal e) \<le> l1_norm bal + 2 * \<bar>A\<bar> + 2 * of_nat (updates_of e) * err L"
proof (cases "updates_of e = 0")
  case True
  then show ?thesis using fin by (simp add: add_expense_skip)
next
  case False
  then obtain members where m: "involved_fp e = Some members" "members \<noteq> []"
    "updates_of e = length members + 1"
    by (auto simp: updates_of_def split: option.splits if_splits)
  define K :: rat where "K = of_nat (length members)"
  define E where "E = err L"
  have K: "0 \<le> K" by (simp add: K_def)
  have E: "0 \<le> E" unfolding E_def using L(2) by (rule err_nonneg)
  define KE where "KE = K * E"
  have KE: "0 \<le> KE" unfolding KE_def using K E by simp
  have small': "l1_norm bal + 2 * \<bar>A\<bar> + (2 * KE + 2 * E) \<le> L"
    using small by (simp add: m(3) K_def E_def KE_def algebra_simps)
  have n: "0 \<le> l1_norm bal" by (rule l1_norm_nonneg)
  have A: "\<bar>A\<bar> \<le> L" using small' n KE E by linarith
  from share_error [OF L A, of "length members"] m(2)
  obtain s where s: "d_div (Finite A) (Finite (of_nat (length members))) = Finite s"
    "\<bar>K * s - A\<bar> \<le> KE + E" by (auto simp: K_def E_def KE_def algebra_simps)
  define Ks where "Ks = K * \<bar>s\<bar>"
  have "Ks = \<bar>K * s\<bar>" using K by (simp add: Ks_def abs_mult)
  then have Ks: "Ks \<le> \<bar>A\<bar> + KE + E" using s(2) by linarith
  define bal1 where "bal1 = obj_set_fp bal (payer_fp e) (d_add (obj_get_fp bal (payer_fp e)) (Finite A))"
  have unfold: "add_expense_fp bal e = debit_all_fp (Finite s) bal1 members"
    unfolding add_expense_fp_unfold [OF m(1,2)] bal1_def amt s(1) by (rule refl)
  have pk: "payer_fp e \<in> set (map fst bal)" using ros keys by (simp add: from_roster_fp_def)
  have s1: "l1_norm bal + \<bar>A\<bar> \<le> L" using small' KE E by linarith
  note c = one_update [OF fin pk s1 L(1), folded bal1_def E_def]
  have mk: "set members \<subseteq> set (map fst bal1)" using ros keys c by (simp add: from_roster_fp_def m(1))
  have "K * (\<bar>s\<bar> + E) = Ks + KE" by (simp add: Ks_def KE_def algebra_simps)
  then have Kse: "of_nat (length members) * (\<bar>s\<bar> + err L) = Ks + KE" by (simp add: K_def E_def)
  have s2: "l1_norm bal1 + of_nat (length members) * (\<bar>s\<bar> + err L) \<le> L"
    unfolding Kse using c Ks small' by linarith
  from c have fin1: "all_finite bal1" by simp
  note d = debit_all_error [OF L fin1 mk s2, folded unfold, unfolded Kse, folded K_def E_def KE_def]
  have sum: "\<bar>exact_sum (add_expense_fp bal e) - exact_sum bal\<bar> \<le> 2 * KE + 2 * E"
  proof -
    have 1: "\<bar>exact_sum (add_expense_fp bal e) - (exact_sum bal1 - K * s)\<bar> \<le> KE" using d by (simp add: KE_def)
    have 2: "\<bar>exact_sum bal1 - (exact_sum bal + A)\<bar> \<le> E" using c by simp
    from 1 2 s(2) show ?thesis by linarith
  qed
  have l1: "l1_norm (add_expense_fp bal e) \<le> l1_norm bal + 2 * \<bar>A\<bar> + (2 * KE + 2 * E)"
  proof -
    have 1: "l1_norm (add_expense_fp bal e) \<le> l1_norm bal1 + (Ks + KE)" using d by simp
    have 2: "l1_norm bal1 \<le> l1_norm bal + \<bar>A\<bar> + E" using c by simp
    from 1 2 Ks show ?thesis by linarith
  qed
  have eq: "2 * of_nat (updates_of e) * err L = 2 * KE + 2 * E"
    by (simp add: m(3) K_def E_def KE_def algebra_simps)
  have "all_finite (add_expense_fp bal e)" "map fst (add_expense_fp bal e) = map fst bal"
    using d c by simp_all
  with sum l1 show ?thesis unfolding eq by simp
qed

lemma total_spent_nonneg: "0 \<le> total_spent es"
  unfolding total_spent_def by (rule sum_list_nonneg) auto

lemma cost_nonneg: "0 \<le> L \<Longrightarrow> 0 \<le> cost L es"
  using total_spent_nonneg [of es] err_nonneg [of L] by (simp add: cost_def)

lemma cost_Cons:
  "cost L (e # es) = 2 * \<bar>value_of (amount_fp e)\<bar> + 2 * of_nat (updates_of e) * err L + cost L es"
  by (simp add: cost_def total_spent_def updates_def algebra_simps)

lemma updates_Cons:
  "2 * of_nat (updates (e # es)) * err L
     = 2 * of_nat (updates_of e) * err L + 2 * of_nat (updates es) * err L"
  by (simp add: updates_def algebra_simps)

lemma balances_error:
  assumes L: "L \<le> pow2 1023" "0 \<le> L"
  shows "all_finite bal \<Longrightarrow> set (map fst bal) = set ps \<Longrightarrow>
    list_all (from_roster_fp ps) es \<Longrightarrow> list_all (\<lambda>e. is_finite (amount_fp e)) es \<Longrightarrow>
    l1_norm bal + cost L es \<le> L \<Longrightarrow>
    all_finite (foldl add_expense_fp bal es)
    \<and> \<bar>exact_sum (foldl add_expense_fp bal es) - exact_sum bal\<bar>
        \<le> 2 * of_nat (updates es) * err L"
proof (induction es arbitrary: bal)
  case Nil
  then show ?case by (simp add: updates_def)
next
  case (Cons e es)
  from Cons.prems(4) obtain A where A: "amount_fp e = Finite A"
    by (cases "amount_fp e") simp_all
  have c: "0 \<le> cost L es" using L(2) by (rule cost_nonneg)
  have budget: "l1_norm bal + 2 * \<bar>A\<bar> + 2 * of_nat (updates_of e) * err L + cost L es \<le> L"
    using Cons.prems(5) by (simp add: cost_Cons A)
  then have small: "l1_norm bal + 2 * \<bar>A\<bar> + 2 * of_nat (updates_of e) * err L \<le> L"
    using c by linarith
  have ros: "from_roster_fp ps e" using Cons.prems(3) by simp
  note s = add_expense_error [OF L Cons.prems(1) ros Cons.prems(2) A small]
  let ?b = "add_expense_fp bal e"
  have "all_finite ?b" "set (map fst ?b) = set ps" "list_all (from_roster_fp ps) es"
    "list_all (\<lambda>e. is_finite (amount_fp e)) es"
    using s Cons.prems by simp_all
  moreover have "l1_norm ?b + cost L es \<le> L" using s budget by linarith
  ultimately have r: "all_finite (foldl add_expense_fp ?b es)
    \<and> \<bar>exact_sum (foldl add_expense_fp ?b es) - exact_sum ?b\<bar> \<le> 2 * of_nat (updates es) * err L"
    by (rule Cons.IH)
  have "\<bar>exact_sum (foldl add_expense_fp ?b es) - exact_sum bal\<bar>
      \<le> 2 * of_nat (updates_of e) * err L + 2 * of_nat (updates es) * err L"
    using r s by linarith
  with r show ?case unfolding updates_Cons by simp
qed

lemma init_balances_fp_zero:
  "\<forall>kv \<in> set bal. snd kv = Finite 0 \<Longrightarrow>
   (\<forall>kv \<in> set (foldl (\<lambda>bal p. obj_set_fp bal p (Finite 0)) bal ps). snd kv = Finite 0)
   \<and> set (map fst (foldl (\<lambda>bal p. obj_set_fp bal p (Finite 0)) bal ps)) = set (map fst bal) \<union> set ps"
proof (induction ps arbitrary: bal)
  case Nil
  then show ?case by simp
next
  case (Cons p ps)
  have z: "\<forall>kv \<in> set (obj_set_fp b p (Finite 0)). snd kv = Finite 0"
    if "\<forall>kv \<in> set b. snd kv = Finite 0" for b
    using that by (induction b) (fastforce split: if_splits)+
  have m: "map fst (obj_set_fp b p v) = (if p \<in> set (map fst b) then map fst b else map fst b @ [p])"
    for b v by (induction b) force+
  have k: "fst ` set (obj_set_fp b p v) = insert p (fst ` set b)" for b v
    unfolding set_map [symmetric] m by (simp add: insert_absorb)
  from Cons.IH [OF z [OF Cons.prems]] show ?case by (simp add: k)
qed

lemma zeros_sums:
  "\<forall>kv \<in> set bal. snd kv = Finite 0 \<Longrightarrow> all_finite bal \<and> exact_sum bal = 0 \<and> l1_norm bal = 0"
  by (induction bal) (simp_all add: all_finite_def exact_sum_def l1_norm_def)

lemma init_balances_fp_facts:
  "all_finite (init_balances_fp ps) \<and> exact_sum (init_balances_fp ps) = 0
   \<and> l1_norm (init_balances_fp ps) = 0 \<and> set (map fst (init_balances_fp ps)) = set ps"
  using init_balances_fp_zero [of "[]" ps] zeros_sums [of "init_balances_fp ps"]
  by (simp add: init_balances_fp_def)

lemma err_pow2_31: "err (pow2 31) \<le> 1 / 2097152"
proof -
  have "pow2 31 * pow2 (- 53) = pow2 (- 22)" by (simp add: pow2_add [symmetric])
  moreover have "pow2 (- 1075) \<le> pow2 (- 22)" by (rule pow2_mono) simp
  moreover have "pow2 (- 22) = 1 / 4194304" by (simp add: pow2_def)
  ultimately show ?thesis by (simp add: err_def)
qed

text \<open>
  C1, as amended. For every roster and every list of expenses whose payers and involved
  members are drawn from the roster, whose amounts are finite numbers with magnitudes adding
  up to at most \<open>10^9\<close>, and for which the balance computation makes at most 10000 updates
  (one for the payer and one for each involved member of every expense that is not skipped),
  all balance values are finite and their sum is within 0.01 of zero.
\<close>

theorem zero_sum_fp:
  assumes "list_all (from_roster_fp participants) expenses"
    and "list_all (\<lambda>e. is_finite (amount_fp e)) expenses"
    and "total_spent expenses \<le> 1000000000" and "updates expenses \<le> 10000"
  shows "all_finite (balances_fp participants expenses)
    \<and> \<bar>exact_sum (balances_fp participants expenses)\<bar> \<le> 1 / 100"
proof -
  define L where "L = pow2 31"
  have Lv: "L = 2147483648" by (simp add: L_def pow2_def)
  have L: "L \<le> pow2 1023" "0 \<le> L"
    unfolding L_def using pow2_pos [of 31] by (simp_all add: pow2_mono less_imp_le)
  have e: "err L \<le> 1 / 2097152" "0 \<le> err L"
    using err_pow2_31 err_nonneg [OF L(2)] by (simp_all add: L_def)
  define N :: rat where "N = of_nat (updates expenses)"
  have N: "0 \<le> N" "N \<le> 10000" using assms(4) by (simp_all add: N_def)
  have "N * err L \<le> 10000 * (1 / 2097152)"
    using N e by (intro mult_mono) simp_all
  then have Ne: "2 * N * err L \<le> 1 / 100" by simp
  note i = init_balances_fp_facts [of participants]
  have "cost L expenses \<le> L"
    using assms(3) Ne by (simp add: cost_def N_def Lv)
  then have "l1_norm (init_balances_fp participants) + cost L expenses \<le> L" using i by simp
  with i assms(1,2) have "all_finite (foldl add_expense_fp (init_balances_fp participants) expenses)
    \<and> \<bar>exact_sum (foldl add_expense_fp (init_balances_fp participants) expenses)
         - exact_sum (init_balances_fp participants)\<bar> \<le> 2 * of_nat (updates expenses) * err L"
    by (intro balances_error [OF L]) simp_all
  then show ?thesis using Ne i by (simp add: balances_fp_def N_def)
qed

theorem zero_sum_fp_witness:
  "list_all (from_roster_fp [''A'', ''B'', ''C''])
     [\<lparr>amount_fp = Finite 10, payer_fp = ''A'', involved_fp = Some [''A'', ''B'', ''C'']\<rparr>,
      \<lparr>amount_fp = cent, payer_fp = ''B'', involved_fp = Some [''A'', ''C'', ''A'']\<rparr>]
   \<and> list_all (\<lambda>e. is_finite (amount_fp e))
     [\<lparr>amount_fp = Finite 10, payer_fp = ''A'', involved_fp = Some [''A'', ''B'', ''C'']\<rparr>,
      \<lparr>amount_fp = cent, payer_fp = ''B'', involved_fp = Some [''A'', ''C'', ''A'']\<rparr>]
   \<and> total_spent
     [\<lparr>amount_fp = Finite 10, payer_fp = ''A'', involved_fp = Some [''A'', ''B'', ''C'']\<rparr>,
      \<lparr>amount_fp = cent, payer_fp = ''B'', involved_fp = Some [''A'', ''C'', ''A'']\<rparr>]
       \<le> 1000000000
   \<and> updates
     [\<lparr>amount_fp = Finite 10, payer_fp = ''A'', involved_fp = Some [''A'', ''B'', ''C'']\<rparr>,
      \<lparr>amount_fp = cent, payer_fp = ''B'', involved_fp = Some [''A'', ''C'', ''A'']\<rparr>]
       \<le> 10000
   \<and> all_finite (balances_fp [''A'', ''B'', ''C'']
     [\<lparr>amount_fp = Finite 10, payer_fp = ''A'', involved_fp = Some [''A'', ''B'', ''C'']\<rparr>,
      \<lparr>amount_fp = cent, payer_fp = ''B'', involved_fp = Some [''A'', ''C'', ''A'']\<rparr>])
   \<and> \<bar>exact_sum (balances_fp [''A'', ''B'', ''C'']
     [\<lparr>amount_fp = Finite 10, payer_fp = ''A'', involved_fp = Some [''A'', ''B'', ''C'']\<rparr>,
      \<lparr>amount_fp = cent, payer_fp = ''B'', involved_fp = Some [''A'', ''C'', ''A'']\<rparr>])\<bar>
       \<le> 1 / 100"
proof -
  let ?es = "[\<lparr>amount_fp = Finite 10, payer_fp = ''A'', involved_fp = Some [''A'', ''B'', ''C'']\<rparr>,
      \<lparr>amount_fp = cent, payer_fp = ''B'', involved_fp = Some [''A'', ''C'', ''A'']\<rparr>]"
  have h1: "list_all (from_roster_fp [''A'', ''B'', ''C'']) ?es"
    by (simp add: from_roster_fp_def)
  have h2: "list_all (\<lambda>e. is_finite (amount_fp e)) ?es" by (simp add: cent_value)
  have h3: "total_spent ?es \<le> 1000000000" by (simp add: total_spent_def cent_value)
  have h4: "updates ?es \<le> 10000" by (simp add: updates_def updates_of_def)
  from h1 h2 h3 h4 zero_sum_fp [OF h1 h2 h3 h4] show ?thesis by (intro conjI) simp_all
qed

text \<open>
  C1 as stated fails, because the share and every update are rounded. After the single
  expense of \<open>10^16\<close> paid by A for A, B and C the balances are 6666666666666666,
  -3333333333333333.5 and -3333333333333333.5, whose sum is -1; after the single expense of
  \<open>10^15\<close> their sum is 0.125.
\<close>

theorem zero_sum_fp_counterexample:
  "list_all (from_roster_fp [''A'', ''B'', ''C''])
      [\<lparr>amount_fp = Finite 10000000000000000, payer_fp = ''A'',
        involved_fp = Some [''A'', ''B'', ''C'']\<rparr>]
   \<and> balances_fp [''A'', ''B'', ''C'']
      [\<lparr>amount_fp = Finite 10000000000000000, payer_fp = ''A'',
        involved_fp = Some [''A'', ''B'', ''C'']\<rparr>]
     = [(''A'', Finite 6666666666666666), (''B'', Finite (- (6666666666666667 / 2))),
        (''C'', Finite (- (6666666666666667 / 2)))]
   \<and> exact_sum [(''A'', Finite 6666666666666666), (''B'', Finite (- (6666666666666667 / 2))),
        (''C'', Finite (- (6666666666666667 / 2)))] = - 1
   \<and> \<not> \<bar>exact_sum [(''A'', Finite 6666666666666666), (''B'', Finite (- (6666666666666667 / 2))),
        (''C'', Finite (- (6666666666666667 / 2)))]\<bar> \<le> 1 / 100
   \<and> exact_sum (balances_fp [''A'', ''B'', ''C'']
      [\<lparr>amount_fp = Finite 1000000000000000, payer_fp = ''A'',
        involved_fp = Some [''A'', ''B'', ''C'']\<rparr>]) = 1 / 8"
  by code_simp

end
